theory Spec2Isabelle
  imports Main "HOL-Library.AList" "HOL-Library.Char_ord" "HOL-Library.List_Lexorder"
begin

section \<open>The copyright-attribution script \<open>contrib/reuse/reuse-headers.py\<close>\<close>

text \<open>
  The script lists the tracked files of a git repository, reads the commit history of
  each file, groups the commit years by (rewritten) author name and calls
  \<open>reuse addheader\<close> once per (file, author) pair.

  Python strings are modelled as \<open>string\<close>: a \<open>char\<close> stands for a code point below 256.
  Exceptions are values of \<open>error\<close>; a function that may raise returns \<open>error + 'a\<close>.
\<close>

subsection \<open>Errors, the environment and the static configuration\<close>

datatype error = CalledProcessError | IndexError | ValueError | OverflowError | OSError

text \<open>
  What the script takes from outside itself:
  \<^item> \<open>subprocess_run argv\<close>: what the call \<open>subprocess.run(argv, ..., check=True)\<close> gives,
    the standard output of the process when it exits with status zero, and otherwise the
    exception of the call (the process exited with another status, or could not be
    started);
  \<^item> \<open>fromtimestamp_year t\<close>: the field \<open>year\<close> of \<open>datetime.fromtimestamp(t)\<close>, the calendar
    year of the instant \<open>t\<close> in the local time zone, or the exception raised for an instant
    that the platform cannot represent; a \<open>datetime\<close> has a year from 1 to 9999, so the
    year is a natural number;
  \<^item> \<open>zero_pad_year\<close>: whether the platform's \<open>strftime("%Y")\<close> fills a year below 1000 with
    zeros to four digits (the C library decides; glibc does not);
  \<^item> \<open>set_iter xs\<close>: the order in which a \<open>for\<close> loop visits \<open>set(xs)\<close>. The language fixes
    only that every distinct element is visited once, see \<open>iter_ok\<close>.
\<close>

record env =
  subprocess_run :: "string list \<Rightarrow> error + string"
  fromtimestamp_year :: "int \<Rightarrow> error + nat"
  zero_pad_year :: bool
  set_iter :: "(string \<times> string) list \<Rightarrow> (string \<times> string) list"

definition iter_ok :: "'a env_scheme \<Rightarrow> bool" where
  "iter_ok E = (\<forall>xs. distinct (set_iter E xs) \<and> set (set_iter E xs) = set xs)"

definition DEFAULT_LICENSE :: string where
  "DEFAULT_LICENSE = ''GPL-3.0-or-later''"

definition AUTHOR_REWRITE :: "(string \<times> string) list" where
  "AUTHOR_REWRITE = [(''Alvar'', ''Alvar Penning'')]"

definition FILE_IGNORE :: "string list" where
  "FILE_IGNORE = [''go.mod'', ''go.sum'', ''.reuse/dep5'',
     ''LICENSE'', ''LICENSES/CC0-1.0.txt'', ''LICENSES/GPL-3.0-or-later.txt'']"

text \<open>An ownership is a triple of file name, author and years.\<close>

type_synonym Ownership = "string \<times> string \<times> string"

text \<open>The sequence of calls of \<open>subprocess.run\<close>, each by its argument vector.\<close>

type_synonym trace = "string list list"

subsection \<open>The string operations of Python that the script uses\<close>

definition NUL :: char where
  "NUL = CHR 0x00"

definition NL :: char where
  "NL = CHR 0x0A"

text \<open>
  \<open>s.split(c)\<close> for a separator of one character: one field more than separators, so the
  list of fields is never empty and a character that is not the separator goes to the
  front of the first field of the rest.
\<close>

fun split_sep :: "char \<Rightarrow> string \<Rightarrow> string list" where
  "split_sep c [] = [[]]"
| "split_sep c (x # xs) =
     (if x = c then [] # split_sep c xs
      else (case split_sep c xs of [] \<Rightarrow> [[x]] | w # ws \<Rightarrow> (x # w) # ws))"

text \<open>\<open>str.isspace\<close> on the code points below 256.\<close>

definition is_space :: "char \<Rightarrow> bool" where
  "is_space c = ((of_char c :: nat) \<in> {9, 10, 11, 12, 13, 28, 29, 30, 31, 32, 133, 160})"

text \<open>
  \<open>s.split()\<close> with no separator: the maximal runs of characters that are not white space;
  \<open>w\<close> is the run being read.
\<close>

fun split_ws_from :: "string \<Rightarrow> string \<Rightarrow> string list" where
  "split_ws_from w [] = (if w = [] then [] else [w])"
| "split_ws_from w (c # cs) =
     (if is_space c then (if w = [] then split_ws_from [] cs else w # split_ws_from [] cs)
      else split_ws_from (w @ [c]) cs)"

definition split_ws :: "string \<Rightarrow> string list" where
  "split_ws s = split_ws_from [] s"

text \<open>\<open>sep.join(xs)\<close>.\<close>

fun join :: "string \<Rightarrow> string list \<Rightarrow> string" where
  "join sep [] = []"
| "join sep [x] = x"
| "join sep (x # y # ys) = x @ sep @ join sep (y # ys)"

text \<open>
  \<open>int(s)\<close> in base ten: white space around the literal is dropped, a sign may come first,
  and single underscores may stand between digits. The white space of \<open>int\<close> is that of
  \<open>str.isspace\<close> without the four separators 28 to 31. A literal of more than 4300 digits
  is refused (the default of \<open>sys.int_max_str_digits\<close>; the sign, the underscores and the
  white space do not count).
\<close>

definition int_space :: "char \<Rightarrow> bool" where
  "int_space c = ((of_char c :: nat) \<in> {9, 10, 11, 12, 13, 32, 133, 160})"

definition is_digit :: "char \<Rightarrow> bool" where
  "is_digit c = (48 \<le> (of_char c :: nat) \<and> (of_char c :: nat) \<le> 57)"

definition digit_val :: "char \<Rightarrow> int" where
  "digit_val c = of_char c - 48"

fun int_digits :: "int \<Rightarrow> string \<Rightarrow> int option" where
  "int_digits acc [] = Some acc"
| "int_digits acc (c # cs) =
     (if is_digit c then int_digits (10 * acc + digit_val c) cs
      else if c = CHR ''_'' \<and> cs \<noteq> [] \<and> is_digit (hd cs) then int_digits acc cs
      else None)"

definition int_unsigned :: "string \<Rightarrow> error + int" where
  "int_unsigned s =
     (if s \<noteq> [] \<and> is_digit (hd s) \<and> length (filter is_digit s) \<le> 4300
      then (case int_digits 0 s of None \<Rightarrow> Inl ValueError | Some n \<Rightarrow> Inr n)
      else Inl ValueError)"

definition py_int :: "string \<Rightarrow> error + int" where
  "py_int s =
     (case rev (dropWhile int_space (rev (dropWhile int_space s))) of
        [] \<Rightarrow> Inl ValueError
      | c # cs \<Rightarrow>
          if c = CHR ''-'' then map_sum id uminus (int_unsigned cs)
          else if c = CHR ''+'' then int_unsigned cs
          else int_unsigned (c # cs))"

text \<open>Decimal digits of a natural number, and \<open>strftime("%Y")\<close> of a year.\<close>

definition digit_char :: "nat \<Rightarrow> char" where
  "digit_char d = ''0123456789'' ! d"

fun show_nat :: "nat \<Rightarrow> string" where
  "show_nat n =
     (if n < 10 then [digit_char n]
      else show_nat (n div 10) @ [digit_char (n mod 10)])"

definition strftime_Y :: "'a env_scheme \<Rightarrow> nat \<Rightarrow> string" where
  "strftime_Y E y =
     (if zero_pad_year E then replicate (4 - length (show_nat y)) CHR ''0'' @ show_nat y
      else show_nat y)"

declare show_nat.simps [simp del]

subsection \<open>The script\<close>

text \<open>
  \<open>git(cmds)\<close> runs \<open>["git"] + cmds\<close> with \<open>check=True\<close> and returns the standard output.
  Every function that calls \<open>subprocess.run\<close> returns the calls it made with its value.
\<close>

definition git :: "'a env_scheme \<Rightarrow> string list \<Rightarrow> trace \<times> (error + string)" where
  "git E cmds = ([''git'' # cmds], subprocess_run E (''git'' # cmds))"

text \<open>\<open>AUTHOR_REWRITE.get(author, author)\<close>.\<close>

definition author_rewrite :: "string \<Rightarrow> string" where
  "author_rewrite author =
     (case map_of AUTHOR_REWRITE author of None \<Rightarrow> author | Some canonical \<Rightarrow> canonical)"

text \<open>
  One element of the comprehension \<open>owners_year\<close>:
  \<open>(tpl[0], datetime.fromtimestamp(int(tpl[1])).strftime("%Y"))\<close>.
\<close>

definition owner_year :: "'a env_scheme \<Rightarrow> string list \<Rightarrow> error + (string \<times> string)" where
  "owner_year E tpl =
     (case tpl of
        [] \<Rightarrow> Inl IndexError
      | [author] \<Rightarrow> Inl IndexError
      | author # stamp # _ \<Rightarrow>
          (case py_int stamp of
             Inl e \<Rightarrow> Inl e
           | Inr t \<Rightarrow>
               (case fromtimestamp_year E t of
                  Inl e \<Rightarrow> Inl e
                | Inr y \<Rightarrow> Inr (author, strftime_Y E y))))"

fun owners_year :: "'a env_scheme \<Rightarrow> string list list \<Rightarrow> error + (string \<times> string) list" where
  "owners_year E [] = Inr []"
| "owners_year E (tpl # tpls) =
     (case owner_year E tpl of
        Inl e \<Rightarrow> Inl e
      | Inr p \<Rightarrow>
          (case owners_year E tpls of Inl e \<Rightarrow> Inl e | Inr ps \<Rightarrow> Inr (p # ps)))"

text \<open>
  The body of the loop over \<open>set(owners_year)\<close>. The dictionary \<open>owner_grp\<close> is an
  association list in insertion order: \<open>AList.update\<close> replaces the value of a key that is
  present where it stands and appends a key that is absent, as a Python \<open>dict\<close> does.
\<close>

definition group_step ::
  "string \<times> string \<Rightarrow> (string \<times> string list) list \<Rightarrow> (string \<times> string list) list" where
  "group_step p owner_grp =
     (let author = author_rewrite (fst p); year = snd p
      in case map_of owner_grp author of
           None \<Rightarrow> AList.update author [year] owner_grp
         | Some years \<Rightarrow>
             if year \<notin> set years then AList.update author (sort (years @ [year])) owner_grp
             else owner_grp)"

text \<open>\<open>sorted(owners, key=lambda owner: owner[1], reverse=True)\<close>: a new list, stable.\<close>

definition sorted_by_author_desc :: "Ownership list \<Rightarrow> Ownership list" where
  "sorted_by_author_desc owners = rev (sort_key (\<lambda>owner. fst (snd owner)) (rev owners))"

text \<open>The body of \<open>file_authors\<close> from the output \<open>out\<close> of \<open>git log\<close> on.\<close>

definition file_authors_of_log :: "'a env_scheme \<Rightarrow> string \<Rightarrow> string \<Rightarrow> error + Ownership list" where
  "file_authors_of_log E f out =
     (let owners_raw = split_sep NL out;
          owners_tpl = rev (map (split_sep NUL) owners_raw)
      in case owners_year E owners_tpl of
           Inl e \<Rightarrow> Inl e
         | Inr oys \<Rightarrow>
             (let owner_grp = fold group_step (set_iter E oys) [];
                  owners = map (\<lambda>(author, years). (f, author, join '', '' years)) owner_grp;
                  sorted_owners = sorted_by_author_desc owners
              in Inr owners))"

definition log_cmd :: "string \<Rightarrow> string list" where
  "log_cmd f = [''log'', ''--pretty=format:%an%x00%at'', f]"

definition file_authors :: "'a env_scheme \<Rightarrow> string \<Rightarrow> trace \<times> (error + Ownership list)" where
  "file_authors E f =
     (case git E (log_cmd f) of
        (tr, Inl e) \<Rightarrow> (tr, Inl e)
      | (tr, Inr out) \<Rightarrow> (tr, file_authors_of_log E f out))"

definition addheader_cmd :: "string \<Rightarrow> string \<Rightarrow> string \<Rightarrow> string \<Rightarrow> string list" where
  "addheader_cmd f author years license =
     [''reuse'', ''addheader'', ''--copyright='' @ author, ''--year='' @ years,
      ''--license='' @ license, f]"

definition reuse_addheader ::
  "'a env_scheme \<Rightarrow> string \<Rightarrow> string \<Rightarrow> string \<Rightarrow> string \<Rightarrow> trace \<times> (error + unit)" where
  "reuse_addheader E f author years license =
     ([addheader_cmd f author years license],
      map_sum id (\<lambda>_. ()) (subprocess_run E (addheader_cmd f author years license)))"

text \<open>The main program: the file list, the loop that collects the owners, the loop that applies them.\<close>

definition ls_files_cmd :: "string list" where
  "ls_files_cmd = [''ls-files'']"

definition tracked_files :: "'a env_scheme \<Rightarrow> trace \<times> (error + string list)" where
  "tracked_files E =
     (case git E ls_files_cmd of
        (tr, Inl e) \<Rightarrow> (tr, Inl e)
      | (tr, Inr out) \<Rightarrow> (tr, Inr (filter (\<lambda>f. f \<notin> set FILE_IGNORE) (split_ws out))))"

fun collect_owners ::
  "'a env_scheme \<Rightarrow> string list \<Rightarrow> Ownership list \<Rightarrow> trace \<times> (error + Ownership list)" where
  "collect_owners E [] owners = ([], Inr owners)"
| "collect_owners E (f # fs) owners =
     (case file_authors E f of
        (tr, Inl e) \<Rightarrow> (tr, Inl e)
      | (tr, Inr os) \<Rightarrow>
          (case collect_owners E fs (owners @ os) of (tr', r) \<Rightarrow> (tr @ tr', r)))"

fun apply_headers :: "'a env_scheme \<Rightarrow> Ownership list \<Rightarrow> trace \<times> (error + unit)" where
  "apply_headers E [] = ([], Inr ())"
| "apply_headers E ((f, author, years) # os) =
     (case reuse_addheader E f author years DEFAULT_LICENSE of
        (tr, Inl e) \<Rightarrow> (tr, Inl e)
      | (tr, Inr u) \<Rightarrow> (case apply_headers E os of (tr', r) \<Rightarrow> (tr @ tr', r)))"

definition resolve :: "'a env_scheme \<Rightarrow> trace \<times> (error + Ownership list)" where
  "resolve E =
     (case tracked_files E of
        (tr, Inl e) \<Rightarrow> (tr, Inl e)
      | (tr, Inr files) \<Rightarrow> (case collect_owners E files [] of (tr', r) \<Rightarrow> (tr @ tr', r)))"

definition main :: "'a env_scheme \<Rightarrow> trace \<times> (error + unit)" where
  "main E =
     (case resolve E of
        (tr, Inl e) \<Rightarrow> (tr, Inl e)
      | (tr, Inr owners) \<Rightarrow> (case apply_headers E owners of (tr', r) \<Rightarrow> (tr @ tr', r)))"

subsection \<open>A sample environment\<close>

text \<open>
  The year of an instant in UTC: the proleptic Gregorian year of the day \<open>t div 86400\<close>.
  Days are counted from 1 March of year 0 in eras of 400 years (146097 days): \<open>doe\<close> is
  the day of the era, \<open>yoe\<close> the year of the era, and a day of the year (from 1 March)
  past the 305th lies in January or February of the next calendar year.

  Then what \<open>datetime.fromtimestamp\<close> refuses (CPython 3.11 on glibc, \<open>TZ=UTC\<close>): an instant
  outside the 64 bits of \<open>time_t\<close> with \<open>OverflowError\<close>; one whose year does not fit the
  32 bits of \<open>tm_year\<close> with \<open>OSError\<close>; one after the last second of the year 9999, or
  before the second day of the year 1, with \<open>ValueError\<close>.
\<close>

definition year_of_era :: "int \<Rightarrow> int" where
  "year_of_era doe = (doe - doe div 1460 + doe div 36524 - doe div 146096) div 365"

definition day_of_year :: "int \<Rightarrow> int \<Rightarrow> int" where
  "day_of_year doe yoe = doe - (365 * yoe + yoe div 4 - yoe div 100)"

definition year_of_day :: "int \<Rightarrow> int \<Rightarrow> int \<Rightarrow> int" where
  "year_of_day era yoe doy = yoe + era * 400 + (if (5 * doy + 2) div 153 < 10 then 0 else 1)"

definition year_in_era :: "int \<Rightarrow> int \<Rightarrow> int" where
  "year_in_era era doe =
     year_of_day era (year_of_era doe) (day_of_year doe (year_of_era doe))"

definition civil_year :: "int \<Rightarrow> int" where
  "civil_year days = year_in_era ((days + 719468) div 146097) ((days + 719468) mod 146097)"

definition year_in_range :: "int \<Rightarrow> int \<Rightarrow> error + nat" where
  "year_in_range t y =
     (if t < - 9223372036854775808 \<or> 9223372036854775807 < t then Inl OverflowError
      else if y < - 2147481748 \<or> 2147485547 < y then Inl OSError
      else if t < - 62135510400 \<or> 253402300799 < t then Inl ValueError
      else Inr (nat y))"

definition utc_year :: "int \<Rightarrow> error + nat" where
  "utc_year t = year_in_range t (civil_year (t div 86400))"

definition utc_env :: "(string list \<Rightarrow> error + string) \<Rightarrow> env" where
  "utc_env run =
     \<lparr>subprocess_run = run, fromtimestamp_year = utc_year, zero_pad_year = False,
      set_iter = remdups\<rparr>"

subsection \<open>Notions used to state the properties\<close>

text \<open>The list \<open>owners_year\<close> that \<open>file_authors\<close> computes from the output of \<open>git log\<close>.\<close>

definition history :: "'a env_scheme \<Rightarrow> string \<Rightarrow> error + (string \<times> string) list" where
  "history E out = owners_year E (rev (map (split_sep NUL) (split_sep NL out)))"

text \<open>\<open>file_authors\<close> with the call of \<open>sorted\<close> in its last line but one taken out.\<close>

definition file_authors_of_log_unsorted ::
  "'a env_scheme \<Rightarrow> string \<Rightarrow> string \<Rightarrow> error + Ownership list" where
  "file_authors_of_log_unsorted E f out =
     (let owners_raw = split_sep NL out;
          owners_tpl = rev (map (split_sep NUL) owners_raw)
      in case owners_year E owners_tpl of
           Inl e \<Rightarrow> Inl e
         | Inr oys \<Rightarrow>
             (let owner_grp = fold group_step (set_iter E oys) [];
                  owners = map (\<lambda>(author, years). (f, author, join '', '' years)) owner_grp
              in Inr owners))"

definition file_authors_unsorted ::
  "'a env_scheme \<Rightarrow> string \<Rightarrow> trace \<times> (error + Ownership list)" where
  "file_authors_unsorted E f =
     (case git E (log_cmd f) of
        (tr, Inl e) \<Rightarrow> (tr, Inl e)
      | (tr, Inr out) \<Rightarrow> (tr, file_authors_of_log_unsorted E f out))"

text \<open>
  What \<open>git ls-files\<close> prints for tracked paths that it does not quote (a space is not
  quoted): each path on a line of its own.
\<close>

definition ls_files_output :: "string list \<Rightarrow> string" where
  "ls_files_output paths = concat (map (\<lambda>p. p @ [NL]) paths)"

text \<open>
  Five repositories to run the script on. In the first, \<open>go.mod\<close> and \<open>main.go\<close> are
  tracked and each has one commit; in the second, \<open>git log\<close> fails on the second of three
  tracked files. In the third, \<open>a.txt\<close> has a commit by \<open>Alvar\<close> in 2020 and one by
  \<open>Alvar Penning\<close> in 2021. In the fourth, the commits of \<open>f\<close> span 2019, 2020 and 2021:
  \<open>C\<close> committed in each of the years, \<open>A\<close> in 2019 and 2021, \<open>B\<close> in 2020, and the log
  lists the commits in no order of time. In the fifth, \<open>main.go\<close> and a file named
  \<open>my file.txt\<close> are tracked, and \<open>git log\<close> fails for every name other than \<open>main.go\<close>.
\<close>

definition sample_run :: "string list \<Rightarrow> error + string" where
  "sample_run argv =
     (if argv = ''git'' # ls_files_cmd then Inr (ls_files_output [''go.mod'', ''main.go''])
      else if argv = ''git'' # log_cmd ''go.mod'' then Inr (''A'' @ [NUL] @ ''1593561600'')
      else if argv = ''git'' # log_cmd ''main.go'' then Inr (''A'' @ [NUL] @ ''1593561600'')
      else Inr [])"

definition failing_run :: "string list \<Rightarrow> error + string" where
  "failing_run argv =
     (if argv = ''git'' # ls_files_cmd
        then Inr (ls_files_output [''a.txt'', ''b.txt'', ''c.txt''])
      else if argv = ''git'' # log_cmd ''a.txt'' then Inr (''A'' @ [NUL] @ ''1593561600'')
      else if argv = ''git'' # log_cmd ''b.txt'' then Inl CalledProcessError
      else if argv = ''git'' # log_cmd ''c.txt'' then Inr (''A'' @ [NUL] @ ''1593561600'')
      else Inr [])"

definition alvar_run :: "string list \<Rightarrow> error + string" where
  "alvar_run argv =
     (if argv = ''git'' # log_cmd ''a.txt''
        then Inr (''Alvar Penning'' @ [NUL] @ ''1620000000'' @ [NL] @
                  ''Alvar'' @ [NUL] @ ''1590000000'')
      else Inr [])"

definition three_authors_run :: "string list \<Rightarrow> error + string" where
  "three_authors_run argv =
     (if argv = ''git'' # log_cmd ''f''
        then Inr (''C'' @ [NUL] @ ''1593561700'' @ [NL] @ ''A'' @ [NUL] @ ''1625097600'' @ [NL] @
                  ''C'' @ [NUL] @ ''1625097700'' @ [NL] @ ''B'' @ [NUL] @ ''1593561600'' @ [NL] @
                  ''A'' @ [NUL] @ ''1561939200'' @ [NL] @ ''C'' @ [NUL] @ ''1561939300'')
      else Inr [])"

definition spaced_run :: "string list \<Rightarrow> error + string" where
  "spaced_run argv =
     (if argv = ''git'' # ls_files_cmd then Inr (ls_files_output [''main.go'', ''my file.txt''])
      else if argv = ''git'' # log_cmd ''main.go'' then Inr (''A'' @ [NUL] @ ''1593561600'')
      else Inl CalledProcessError)"

text \<open>The years of the commits whose author is rewritten to \<open>a\<close>.\<close>

definition years_of :: "string \<Rightarrow> (string \<times> string) list \<Rightarrow> string set" where
  "years_of a ps = {y. \<exists>r. (r, y) \<in> set ps \<and> author_rewrite r = a}"

text \<open>The years stored for an author in \<open>owner_grp\<close>, and the invariant of the grouping loop.\<close>

definition yrs :: "(string \<times> string list) list \<Rightarrow> string \<Rightarrow> string set" where
  "yrs g a = (case map_of g a of None \<Rightarrow> {} | Some ys \<Rightarrow> set ys)"

definition grp_inv :: "(string \<times> string list) list \<Rightarrow> bool" where
  "grp_inv g =
     (distinct (map fst g) \<and>
      (\<forall>a ys. map_of g a = Some ys \<longrightarrow> sorted ys \<and> distinct ys \<and> ys \<noteq> []))"

text \<open>
  Reading the years of an ownership back: \<open>years.split(", ")\<close>, and the number that a
  string of decimal digits denotes.
\<close>

fun split_cs :: "string \<Rightarrow> string list" where
  "split_cs [] = [[]]"
| "split_cs [x] = [[x]]"
| "split_cs (x # y # xs) =
     (if x = CHR '','' \<and> y = CHR '' '' then [] # split_cs xs
      else (case split_cs (y # xs) of [] \<Rightarrow> [[x]] | w # ws \<Rightarrow> (x # w) # ws))"

fun dec_val :: "string \<Rightarrow> int" where
  "dec_val [] = 0"
| "dec_val (c # cs) = digit_val c * 10 ^ length cs + dec_val cs"

section \<open>Properties\<close>

subsection \<open>The grouping loop\<close>

text \<open>
  Every step of the loop keeps the keys of \<open>owner_grp\<close> distinct and each list of years
  sorted, free of duplicates and not empty; the years of an author are those of the pairs
  visited so far.
\<close>

lemma grp_inv_Nil: "grp_inv []"
  by (simp add: grp_inv_def)

lemma grp_inv_update:
  assumes "grp_inv g" and "sorted v" and "distinct v" and "v \<noteq> []"
  shows "grp_inv (AList.update k v g)"
proof -
  have old: "\<And>a ys. map_of g a = Some ys \<Longrightarrow> sorted ys \<and> distinct ys \<and> ys \<noteq> []"
    using assms(1) unfolding grp_inv_def by blast
  have d: "distinct (map fst (AList.update k v g))"
    using assms(1) by (simp add: grp_inv_def distinct_update)
  have "sorted ys \<and> distinct ys \<and> ys \<noteq> []"
    if "map_of (AList.update k v g) a = Some ys" for a ys
  proof (cases "a = k")
    case True
    with that have "ys = v" by (simp add: update_conv')
    then show ?thesis using assms(2-4) by blast
  next
    case False
    with that have "map_of g a = Some ys" by (simp add: update_conv')
    then show ?thesis by (rule old)
  qed
  with d show ?thesis unfolding grp_inv_def by blast
qed

lemma grp_inv_step:
  assumes "grp_inv g"
  shows "grp_inv (group_step p g)"
proof (cases "map_of g (author_rewrite (fst p))")
  case None
  then show ?thesis
    using grp_inv_update [OF assms, of "[snd p]"] by (simp add: group_step_def)
next
  case (Some ys)
  show ?thesis
  proof (cases "snd p \<in> set ys")
    case True
    with Some assms show ?thesis by (simp add: group_step_def)
  next
    case False
    have "distinct ys" using assms Some by (simp add: grp_inv_def)
    with False have "distinct (sort (ys @ [snd p]))" by simp
    moreover have "sort (ys @ [snd p]) \<noteq> []"
      by (metis Nil_is_append_conv length_0_conv length_sort not_Cons_self2)
    ultimately show ?thesis
      using grp_inv_update [OF assms, of "sort (ys @ [snd p])"] Some False
      by (simp add: group_step_def)
  qed
qed

lemma yrs_step:
  "yrs (group_step p g) a = yrs g a \<union> (if author_rewrite (fst p) = a then {snd p} else {})"
  by (auto simp: yrs_def group_step_def Let_def update_conv' split: option.splits if_splits)

lemma grp_inv_fold: "grp_inv g \<Longrightarrow> grp_inv (fold group_step ps g)"
  by (induction ps arbitrary: g) (simp_all add: grp_inv_step)

lemma years_of_Cons:
  "years_of a (p # ps) = (if author_rewrite (fst p) = a then {snd p} else {}) \<union> years_of a ps"
  by (cases p) (auto simp: years_of_def)

lemma yrs_fold: "yrs (fold group_step ps g) a = yrs g a \<union> years_of a ps"
proof (induction ps arbitrary: g)
  case Nil
  show ?case by (simp add: years_of_def)
next
  case (Cons p ps)
  have "yrs (fold group_step (p # ps) g) a = yrs (group_step p g) a \<union> years_of a ps"
    using Cons [of "group_step p g"] by simp
  then show ?case
    unfolding yrs_step years_of_Cons by (simp add: Un_assoc)
qed

lemma grp_lookup:
  assumes "(a, ys) \<in> set (fold group_step ps [])"
  shows "sorted ys \<and> distinct ys \<and> ys \<noteq> [] \<and> set ys = years_of a ps"
proof -
  let ?g = "fold group_step ps []"
  have inv: "grp_inv ?g" by (simp add: grp_inv_fold grp_inv_Nil)
  then have m: "map_of ?g a = Some ys" using assms by (simp add: grp_inv_def)
  have "yrs [] a = {}" by (simp add: yrs_def)
  then have "yrs ?g a = years_of a ps" by (simp add: yrs_fold)
  with m have "set ys = years_of a ps" by (simp add: yrs_def)
  with m inv show ?thesis by (simp add: grp_inv_def)
qed

lemma keys_step: "fst ` set (group_step p g) = insert (author_rewrite (fst p)) (fst ` set g)"
proof -
  have "dom (map_of (group_step p g)) = insert (author_rewrite (fst p)) (dom (map_of g))"
    by (auto simp: group_step_def Let_def update_conv' split: option.splits if_splits)
  then show ?thesis by (simp add: dom_map_of_conv_image_fst)
qed

lemma grp_keys: "fst ` set (fold group_step ps g) = fst ` set g \<union> author_rewrite ` fst ` set ps"
  by (induction ps arbitrary: g) (auto simp: keys_step)

lemma grp_distinct: "distinct (map fst (fold group_step ps []))"
  using grp_inv_fold [OF grp_inv_Nil, of ps] by (simp add: grp_inv_def)


subsection \<open>From the grouping to the ownerships\<close>

lemma file_authors_of_log_eq:
  "file_authors_of_log E f out =
     (case history E out of
        Inl e \<Rightarrow> Inl e
      | Inr oys \<Rightarrow>
          Inr (map (\<lambda>(author, years). (f, author, join '', '' years))
                 (fold group_step (set_iter E oys) [])))"
  by (simp add: file_authors_of_log_def history_def Let_def split: sum.splits)

lemma file_authors_eq:
  "file_authors E f =
     ([''git'' # log_cmd f],
      case subprocess_run E (''git'' # log_cmd f) of
        Inl e \<Rightarrow> Inl e
      | Inr out \<Rightarrow> file_authors_of_log E f out)"
  by (simp add: file_authors_def git_def split: sum.splits)

lemma years_of_cong: "set ps = set qs \<Longrightarrow> years_of a ps = years_of a qs"
  by (simp add: years_of_def)

lemma filter_key:
  "distinct (map fst g) \<Longrightarrow> (a, v) \<in> set g \<Longrightarrow> filter (\<lambda>p. fst p = a) g = [(a, v)]"
proof (induction g)
  case Nil then show ?case by simp
next
  case (Cons p g)
  show ?case
  proof (cases "fst p = a")
    case True
    with Cons.prems have "p = (a, v)" by (cases p) (auto simp: image_iff)
    moreover have "filter (\<lambda>p. fst p = a) g = []"
      using Cons.prems True by (auto simp: filter_empty_conv image_iff)
    ultimately show ?thesis by simp
  next
    case False
    with Cons show ?thesis by auto
  qed
qed

lemma single_key:
  assumes "distinct (map fst g)" and "fst ` set g = {k}"
  shows "\<exists>v. g = [(k, v)]"
proof (cases g)
  case Nil with assms show ?thesis by simp
next
  case (Cons p g')
  have "g' = []"
  proof (cases g')
    case Nil then show ?thesis .
  next
    case (Cons q g'')
    with assms \<open>g = p # g'\<close> have "fst p = k" "fst q = k" "fst p \<noteq> fst q" by auto
    then show ?thesis by simp
  qed
  with Cons assms show ?thesis by (cases p) auto
qed


subsection \<open>Year strings\<close>

lemma digit_char_is_digit: "d < 10 \<Longrightarrow> is_digit (digit_char d)"
proof -
  assume "d < 10"
  then have "d \<in> {0, 1, 2, 3, 4, 5, 6, 7, 8, 9}" by auto
  then show ?thesis by (auto simp: digit_char_def is_digit_def)
qed

lemma digit_val_digit_char: "d < 10 \<Longrightarrow> digit_val (digit_char d) = int d"
proof -
  assume "d < 10"
  then have "d \<in> {0, 1, 2, 3, 4, 5, 6, 7, 8, 9}" by auto
  then show ?thesis by (auto simp: digit_char_def digit_val_def)
qed

lemma show_nat_digits: "\<forall>c\<in>set (show_nat n). is_digit c"
proof (induction n rule: show_nat.induct)
  case (1 n)
  show ?case
  proof (cases "n < 10")
    case True
    then show ?thesis by (subst show_nat.simps) (simp add: digit_char_is_digit)
  next
    case False
    then show ?thesis using 1 by (subst show_nat.simps) (simp add: digit_char_is_digit)
  qed
qed

lemma show_nat_nonempty: "show_nat n \<noteq> []"
  by (subst show_nat.simps) simp

lemma dec_val_append: "dec_val (xs @ ys) = dec_val xs * 10 ^ length ys + dec_val ys"
  by (induction xs) (simp_all add: power_add algebra_simps)

lemma dec_val_show_nat: "dec_val (show_nat n) = int n"
proof (induction n rule: show_nat.induct)
  case (1 n)
  show ?case
  proof (cases "n < 10")
    case True
    then show ?thesis by (subst show_nat.simps) (simp add: digit_val_digit_char)
  next
    case False
    then have "dec_val (show_nat n) = dec_val (show_nat (n div 10)) * 10 + int (n mod 10)"
      by (subst show_nat.simps) (simp add: dec_val_append digit_val_digit_char)
    with False 1 show ?thesis by (simp add: zdiv_int zmod_int)
  qed
qed

lemma is_digit_zero: "is_digit CHR ''0''"
  by (simp add: is_digit_def)

lemma strftime_Y_digits: "\<forall>c\<in>set (strftime_Y E n). is_digit c"
  using show_nat_digits [of n] by (auto simp: strftime_Y_def is_digit_zero)

lemma strftime_Y_nonempty: "strftime_Y E n \<noteq> []"
  by (simp add: strftime_Y_def show_nat_nonempty)

lemma dec_val_zeros: "dec_val (replicate k CHR ''0'' @ xs) = dec_val xs"
  by (induction k) (simp_all add: digit_val_def)

lemma dec_val_strftime_Y: "dec_val (strftime_Y E n) = int n"
  by (simp add: strftime_Y_def dec_val_zeros dec_val_show_nat)

lemma owner_year_year: "owner_year E tpl = Inr p \<Longrightarrow> \<exists>n. snd p = strftime_Y E n"
  by (auto simp: owner_year_def split: list.splits sum.splits)

lemma owners_year_years:
  "owners_year E tpls = Inr oys \<Longrightarrow> \<forall>p\<in>set oys. \<exists>n. snd p = strftime_Y E n"
proof (induction tpls arbitrary: oys)
  case Nil then show ?case by simp
next
  case (Cons tpl tpls)
  from Cons.prems obtain p ps where
    p: "owner_year E tpl = Inr p" and ps: "owners_year E tpls = Inr ps" and oys: "oys = p # ps"
    by (auto split: sum.splits)
  have "\<exists>n. snd p = strftime_Y E n" using p by (rule owner_year_year)
  moreover have "\<forall>p\<in>set ps. \<exists>n. snd p = strftime_Y E n" using ps by (rule Cons.IH)
  ultimately show ?case using oys by simp
qed

lemma history_years:
  "history E out = Inr oys \<Longrightarrow> (r, y) \<in> set oys \<Longrightarrow> \<exists>n. y = strftime_Y E n"
  unfolding history_def using owners_year_years by fastforce

lemma split_cs_other:
  "CHR '','' \<noteq> c \<Longrightarrow>
   split_cs (c # s) = (case split_cs s of [] \<Rightarrow> [[c]] | w # ws \<Rightarrow> (c # w) # ws)"
  by (cases s) auto

lemma split_cs_field:
  "CHR '','' \<notin> set x \<Longrightarrow> split_cs (x @ '', '' @ rest) = x # split_cs rest"
  by (induction x) (simp_all add: split_cs_other)

lemma split_cs_single: "CHR '','' \<notin> set x \<Longrightarrow> split_cs x = [x]"
  by (induction x) (simp_all add: split_cs_other)

lemma split_cs_join:
  "ys \<noteq> [] \<Longrightarrow> \<forall>y\<in>set ys. CHR '','' \<notin> set y \<Longrightarrow> split_cs (join '', '' ys) = ys"
proof (induction ys)
  case Nil then show ?case by simp
next
  case (Cons x ys)
  have x: "CHR '','' \<notin> set x" using Cons.prems by simp
  show ?case
  proof (cases ys)
    case Nil
    with x show ?thesis by (simp add: split_cs_single)
  next
    case (Cons y ys')
    then have "split_cs (join '', '' ys) = ys" using Cons.IH Cons.prems by simp
    then show ?thesis
      using Cons split_cs_field [OF x, of "join '', '' ys"] by simp
  qed
qed

lemma digit_not_comma: "is_digit c \<Longrightarrow> c \<noteq> CHR '',''"
  by (auto simp: is_digit_def)

lemma digit_val_nat: "digit_val c = int (of_char c) - 48"
  by (simp add: digit_val_def of_nat_of_char)

lemma digit_val_bounds: "is_digit c \<Longrightarrow> 0 \<le> digit_val c \<and> digit_val c \<le> 9"
  by (auto simp: is_digit_def digit_val_nat)

lemma digit_val_less: "is_digit c \<Longrightarrow> is_digit d \<Longrightarrow> (c < d) = (digit_val c < digit_val d)"
  by (auto simp: is_digit_def digit_val_nat less_char_def)

lemma digit_val_inj: "is_digit c \<Longrightarrow> is_digit d \<Longrightarrow> digit_val c = digit_val d \<Longrightarrow> c = d"
  by (auto simp: is_digit_def digit_val_nat)

lemma dec_val_bounds: "\<forall>c\<in>set xs. is_digit c \<Longrightarrow> 0 \<le> dec_val xs \<and> dec_val xs < 10 ^ length xs"
proof (induction xs)
  case Nil then show ?case by simp
next
  case (Cons c cs)
  define p where "p = (10::int) ^ length cs"
  have p: "0 < p" by (simp add: p_def)
  have d: "0 \<le> digit_val c \<and> digit_val c \<le> 9" using Cons.prems by (simp add: digit_val_bounds)
  have ih: "0 \<le> dec_val cs \<and> dec_val cs < p" using Cons by (simp add: p_def)
  have "digit_val c * p \<le> 9 * p" using d p by (simp add: mult_right_mono)
  moreover have "0 \<le> digit_val c * p" using d p by simp
  moreover have "dec_val (c # cs) = digit_val c * p + dec_val cs" by (simp add: p_def)
  moreover have "(10::int) ^ length (c # cs) = 10 * p" by (simp add: p_def)
  ultimately show ?case using ih by linarith
qed

lemma lex_numeric:
  assumes "length xs = length ys" and "\<forall>c\<in>set xs. is_digit c" and "\<forall>c\<in>set ys. is_digit c"
  shows "(xs < ys) = (dec_val xs < dec_val ys)"
  using assms
proof (induction xs ys rule: list_induct2)
  case Nil then show ?case by simp
next
  case (Cons c cs d ds)
  define p where "p = (10::int) ^ length cs"
  have len: "length ds = length cs" using Cons.hyps by simp
  have bc: "0 \<le> dec_val cs \<and> dec_val cs < p"
    using Cons.prems dec_val_bounds [of cs] by (simp add: p_def)
  have bd: "0 \<le> dec_val ds \<and> dec_val ds < p"
    using Cons.prems dec_val_bounds [of ds] len by (simp add: p_def)
  have ih: "(cs < ds) = (dec_val cs < dec_val ds)" using Cons by simp
  have cd: "is_digit c" "is_digit d" using Cons.prems by simp_all
  have vc: "dec_val (c # cs) = digit_val c * p + dec_val cs" by (simp add: p_def)
  have vd: "dec_val (d # ds) = digit_val d * p + dec_val ds" by (simp add: p_def len)
  consider (lt) "digit_val c < digit_val d" | (eq) "digit_val c = digit_val d"
    | (gt) "digit_val d < digit_val c" by linarith
  then show ?case
  proof cases
    case lt
    then have "(digit_val c + 1) * p \<le> digit_val d * p" by (simp add: mult_right_mono p_def)
    then have "digit_val c * p + p \<le> digit_val d * p" by (simp add: algebra_simps)
    then have "dec_val (c # cs) < dec_val (d # ds)" using bc bd vc vd by linarith
    moreover have "c < d" using lt cd by (simp add: digit_val_less)
    ultimately show ?thesis by simp
  next
    case eq
    then have "c = d" using cd by (simp add: digit_val_inj)
    then have "(c # cs < d # ds) = (cs < ds)" by simp
    moreover have "(dec_val (c # cs) < dec_val (d # ds)) = (dec_val cs < dec_val ds)"
      unfolding vc vd eq by linarith
    ultimately show ?thesis using ih by blast
  next
    case gt
    then have "(digit_val d + 1) * p \<le> digit_val c * p" by (simp add: mult_right_mono p_def)
    then have "digit_val d * p + p \<le> digit_val c * p" by (simp add: algebra_simps)
    then have "dec_val (d # ds) < dec_val (c # cs)" using bc bd vc vd by linarith
    moreover have "d < c" using gt cd by (simp add: digit_val_less)
    ultimately have "\<not> dec_val (c # cs) < dec_val (d # ds)" and "\<not> c # cs < d # ds"
      by (auto simp: not_less less_imp_le)
    then show ?thesis by blast
  qed
qed

subsection \<open>The author rewrite\<close>

text \<open>
  C8. Rewriting an author twice is rewriting it once, for every raw name; and a name that
  is a value of the rewrite table, or is not one of its keys, is returned unchanged.
\<close>

theorem author_rewrite_idempotent:
  "author_rewrite (author_rewrite a) = author_rewrite a \<and>
   (a \<in> snd ` set AUTHOR_REWRITE \<or> a \<notin> fst ` set AUTHOR_REWRITE \<longrightarrow> author_rewrite a = a)"
  by (simp add: author_rewrite_def AUTHOR_REWRITE_def)

theorem author_rewrite_idempotent_witness:
  "author_rewrite (author_rewrite ''Alvar'') = author_rewrite ''Alvar'' \<and>
   author_rewrite ''Alvar'' = ''Alvar Penning'' \<and>
   ''Alvar Penning'' \<in> snd ` set AUTHOR_REWRITE \<and>
   author_rewrite ''Alvar Penning'' = ''Alvar Penning''"
  using author_rewrite_idempotent [of "''Alvar''"] author_rewrite_idempotent [of "''Alvar Penning''"]
  by (simp add: author_rewrite_def AUTHOR_REWRITE_def)

subsection \<open>Evaluating the script on a given history\<close>

lemmas clock_eval = utc_year_def year_in_range_def civil_year_def year_in_era_def
  year_of_day_def day_of_year_def year_of_era_def

lemmas script_eval = history_def NL_def NUL_def owner_year_def py_int_def int_space_def
  int_unsigned_def is_digit_def digit_val_def utc_env_def clock_eval
  strftime_Y_def show_nat.simps digit_char_def

lemma iter_ok_utc_env: "iter_ok (utc_env run)"
  by (simp add: iter_ok_def utc_env_def)

lemma show_nat_2020: "show_nat 2020 = ''2020''"
  by (simp add: show_nat.simps digit_char_def)

lemma show_nat_2021: "show_nat 2021 = ''2021''"
  by (simp add: show_nat.simps digit_char_def)

lemma strftime_Y_2020: "strftime_Y E 2020 = ''2020''"
  by (simp add: strftime_Y_def show_nat_2020)

lemma strftime_Y_2021: "strftime_Y E 2021 = ''2021''"
  by (simp add: strftime_Y_def show_nat_2021)

lemma years_of_Nil: "years_of a [] = {}"
  by (simp add: years_of_def)

lemma alvar_rewrites:
  "author_rewrite ''Alvar'' = ''Alvar Penning''"
  "author_rewrite ''Alvar Penning'' = ''Alvar Penning''"
  by (simp_all add: author_rewrite_def AUTHOR_REWRITE_def)

subsection \<open>The discarded sort\<close>

text \<open>
  C2. The call \<open>sorted(owners, key=..., reverse=True)\<close> has no effect on what
  \<open>file_authors\<close> returns: with the call and without it the function returns the same
  list, the entries of \<open>owner_grp\<close> in insertion order, for every environment, file and
  output of \<open>git log\<close>.
\<close>

theorem file_authors_sort_discarded:
  "file_authors E f = file_authors_unsorted E f \<and>
   file_authors_of_log E f out =
     (case history E out of
        Inl e \<Rightarrow> Inl e
      | Inr oys \<Rightarrow>
          Inr (map (\<lambda>(author, years). (f, author, join '', '' years))
                 (fold group_step (set_iter E oys) [])))"
proof -
  have "file_authors_of_log E f out' = file_authors_of_log_unsorted E f out'" for out'
    by (simp add: file_authors_of_log_def file_authors_of_log_unsorted_def Let_def
        split: sum.splits)
  then have "file_authors_of_log E f = file_authors_of_log_unsorted E f"
    by (rule ext)
  then have "file_authors E f = file_authors_unsorted E f"
    unfolding file_authors_def file_authors_unsorted_def by (rule arg_cong)
  then show ?thesis by (simp add: file_authors_of_log_eq)
qed

theorem file_authors_sort_discarded_witness:
  "file_authors (utc_env (\<lambda>argv. Inr [])) ''a.txt'' =
     file_authors_unsorted (utc_env (\<lambda>argv. Inr [])) ''a.txt'' \<and>
   file_authors_of_log (utc_env (\<lambda>argv. Inr [])) ''f''
     (''B'' @ [NUL] @ ''1625097600'' @ [NL] @ ''A'' @ [NUL] @ ''1593561600'') =
     Inr [(''f'', ''A'', ''2020''), (''f'', ''B'', ''2021'')] \<and>
   sorted_by_author_desc [(''f'', ''A'', ''2020''), (''f'', ''B'', ''2021'')] =
     [(''f'', ''B'', ''2021''), (''f'', ''A'', ''2020'')]"
proof -
  let ?E = "utc_env (\<lambda>argv. Inr [])"
  let ?out = "''B'' @ [NUL] @ ''1625097600'' @ [NL] @ ''A'' @ [NUL] @ ''1593561600''"
  note t = file_authors_sort_discarded [of ?E "''a.txt''" ?out]
  have a: "file_authors ?E ''a.txt'' = file_authors_unsorted ?E ''a.txt''"
    using t by (rule conjunct1)
  have r: "file_authors_of_log ?E ''f'' ?out = Inr [(''f'', ''A'', ''2020''), (''f'', ''B'', ''2021'')]"
    by (simp add: file_authors_of_log_eq script_eval group_step_def author_rewrite_def
        AUTHOR_REWRITE_def)
  have s: "sorted_by_author_desc [(''f'', ''A'', ''2020''), (''f'', ''B'', ''2021'')] =
     [(''f'', ''B'', ''2021''), (''f'', ''A'', ''2020'')]"
    by (simp add: sorted_by_author_desc_def)
  show ?thesis
    by (intro conjI; (rule a | rule r | rule s))
qed

subsection \<open>A file with an empty history\<close>

text \<open>
  C1 says that \<open>file_authors\<close> returns no ownership and raises nothing when \<open>git log\<close>
  prints the empty string. The code raises instead: \<open>"".split("\n")\<close> is \<open>[""]\<close>, so
  \<open>owners_tpl\<close> is \<open>[[""]]\<close> and \<open>tpl[1]\<close> is out of range.
\<close>

theorem file_authors_empty_log:
  "subprocess_run E (''git'' # log_cmd f) = Inr [] \<Longrightarrow>
   file_authors E f = ([''git'' # log_cmd f], Inl IndexError)"
  by (simp add: file_authors_def git_def file_authors_of_log_def owner_year_def Let_def)

theorem file_authors_empty_log_witness:
  "subprocess_run (utc_env (\<lambda>argv. Inr [])) (''git'' # log_cmd ''a.txt'') = Inr [] \<and>
   file_authors (utc_env (\<lambda>argv. Inr [])) ''a.txt'' =
     ([[''git'', ''log'', ''--pretty=format:%an%x00%at'', ''a.txt'']], Inl IndexError)"
  using file_authors_empty_log [of "utc_env (\<lambda>argv. Inr [])" "''a.txt''"]
  by (simp add: utc_env_def log_cmd_def)

subsection \<open>The years of one author\<close>

lemma sorted_three:
  assumes "sorted ys" and "distinct ys" and "set ys = {''2019'', ''2021'', ''2020''}"
  shows "ys = [''2019'', ''2020'', ''2021'']"
proof (rule sorted_distinct_set_unique)
  show "sorted ys" "distinct ys" by fact+
  show "sorted [''2019'', ''2020'', ''2021'']" by simp
  show "distinct [''2019'', ''2020'', ''2021'']" by simp
  show "set ys = set [''2019'', ''2020'', ''2021'']" using assms(3) by auto
qed

lemma sorted_two:
  assumes "sorted ys" and "distinct ys" and "set ys = {''2020'', ''2021''}"
  shows "ys = [''2020'', ''2021'']"
proof (rule sorted_distinct_set_unique)
  show "sorted ys" "distinct ys" by fact+
  show "sorted [''2020'', ''2021'']" by simp
  show "distinct [''2020'', ''2021'']" by simp
  show "set ys = set [''2020'', ''2021'']" using assms(3) by auto
qed

lemma grp_record:
  assumes "a \<in> author_rewrite ` fst ` set ps"
  shows "\<exists>ys. filter (\<lambda>p. fst p = a) (fold group_step ps []) = [(a, ys)] \<and>
          sorted ys \<and> distinct ys \<and> set ys = years_of a ps"
proof -
  let ?g = "fold group_step ps []"
  have "a \<in> fst ` set ?g" using assms by (simp add: grp_keys)
  then obtain ys where m: "(a, ys) \<in> set ?g" by force
  then have "filter (\<lambda>p. fst p = a) ?g = [(a, ys)]"
    using grp_distinct by (rule filter_key [rotated])
  then show ?thesis using grp_lookup [OF m] by blast
qed

lemma years_of_nonempty: "y \<in> years_of a ps \<Longrightarrow> a \<in> author_rewrite ` fst ` set ps"
  by (force simp: years_of_def)

lemma filter_owners:
  "filter (\<lambda>r. fst (snd r) = a) (map (\<lambda>(author, years). (f, author, join sep years)) g) =
   map (\<lambda>(author, years). (f, author, join sep years)) (filter (\<lambda>p. fst p = a) g)"
  by (induction g) auto

lemma sorted_list_years:
  assumes "(a, ys) \<in> set (fold group_step ps [])"
  shows "ys = sorted_list_of_set (years_of a ps)"
proof -
  have g: "sorted ys \<and> distinct ys \<and> ys \<noteq> [] \<and> set ys = years_of a ps"
    using assms by (rule grp_lookup)
  then have "sorted ys" "distinct ys" by simp_all
  then have "sorted_list_of_set (set ys) = ys"
    by (rule sorted_list_of_set.idem_if_sorted_distinct)
  with g show ?thesis by simp
qed

lemma grp_record_sorted:
  assumes "a \<in> author_rewrite ` fst ` set ps"
  shows "filter (\<lambda>p. fst p = a) (fold group_step ps []) =
           [(a, sorted_list_of_set (years_of a ps))]"
proof -
  let ?g = "fold group_step ps []"
  have "a \<in> fst ` set ?g" using assms by (simp add: grp_keys)
  then obtain ys where m: "(a, ys) \<in> set ?g" by force
  then have "filter (\<lambda>p. fst p = a) ?g = [(a, ys)]"
    using grp_distinct by (rule filter_key [rotated])
  then show ?thesis using sorted_list_years [OF m] by simp
qed

lemma sorted_list_three:
  "sorted_list_of_set {''2019'', ''2021'', ''2020''} = [''2019'', ''2020'', ''2021'']"
proof -
  have "sorted_list_of_set (set [''2019'', ''2020'', ''2021'']) = [''2019'', ''2020'', ''2021'']"
    by (rule sorted_list_of_set.idem_if_sorted_distinct) simp_all
  moreover have "set [''2019'', ''2020'', ''2021''] = {''2019'', ''2021'', ''2020''}"
    by (simp add: insert_commute)
  ultimately show ?thesis by simp
qed

text \<open>
  C3, as amended. For every file and every order of its commits in the log, \<open>file_authors\<close>
  returns one ownership for each author of the history, after the rewriting of names, and
  no other. Its years are the years of that author's own commits, each once, in ascending
  order of their strings. So an author whose own commits span 2019, 2021 and 2020 gets
  \<open>2019, 2020, 2021\<close>, and an author who committed in some of the years of the file
  gets those years only.
\<close>

theorem years_sorted_any_order:
  assumes "iter_ok E" and "subprocess_run E (''git'' # log_cmd f) = Inr out"
    and "history E out = Inr oys"
  shows "\<exists>owners. file_authors E f = ([''git'' # log_cmd f], Inr owners) \<and>
           (\<lambda>r. fst (snd r)) ` set owners = author_rewrite ` fst ` set oys \<and>
           (\<forall>a\<in>author_rewrite ` fst ` set oys.
              filter (\<lambda>r. fst (snd r) = a) owners =
                [(f, a, join '', '' (sorted_list_of_set (years_of a oys)))]) \<and>
           (\<forall>a. years_of a oys = {''2019'', ''2021'', ''2020''} \<longrightarrow>
              filter (\<lambda>r. fst (snd r) = a) owners = [(f, a, ''2019, 2020, 2021'')])"
proof -
  let ?it = "set_iter E oys"
  let ?g = "fold group_step ?it []"
  let ?owners = "map (\<lambda>(author, years). (f, author, join '', '' years)) ?g"
  have s: "set ?it = set oys" using assms(1) by (simp add: iter_ok_def)
  have y: "years_of a ?it = years_of a oys" for a using s by (rule years_of_cong)
  have e: "file_authors E f = ([''git'' # log_cmd f], Inr ?owners)"
    using assms(2,3) by (simp add: file_authors_eq file_authors_of_log_eq)
  have k: "(\<lambda>r. fst (snd r)) ` set ?owners = author_rewrite ` fst ` set oys"
  proof -
    have "(\<lambda>r. fst (snd r)) ` set ?owners = fst ` set ?g" by force
    then show ?thesis using grp_keys [of ?it "[]"] s by simp
  qed
  have r: "filter (\<lambda>r. fst (snd r) = a) ?owners =
                [(f, a, join '', '' (sorted_list_of_set (years_of a oys)))]"
    if "a \<in> author_rewrite ` fst ` set oys" for a
  proof -
    from that s have "a \<in> author_rewrite ` fst ` set ?it" by simp
    then have "filter (\<lambda>p. fst p = a) ?g = [(a, sorted_list_of_set (years_of a ?it))]"
      by (rule grp_record_sorted)
    then show ?thesis by (simp add: filter_owners y)
  qed
  have t: "filter (\<lambda>r. fst (snd r) = a) ?owners = [(f, a, ''2019, 2020, 2021'')]"
    if "years_of a oys = {''2019'', ''2021'', ''2020''}" for a
  proof -
    from that have "''2019'' \<in> years_of a oys" by simp
    then have "a \<in> author_rewrite ` fst ` set oys" by (rule years_of_nonempty)
    from r [OF this] that show ?thesis by (simp add: sorted_list_three)
  qed
  show ?thesis
  proof (intro exI conjI ballI allI impI)
    show "file_authors E f = ([''git'' # log_cmd f], Inr ?owners)" by (rule e)
    show "(\<lambda>r. fst (snd r)) ` set ?owners = author_rewrite ` fst ` set oys" by (rule k)
  next
    fix a assume "a \<in> author_rewrite ` fst ` set oys"
    then show "filter (\<lambda>r. fst (snd r) = a) ?owners =
                [(f, a, join '', '' (sorted_list_of_set (years_of a oys)))]" by (rule r)
  next
    fix a assume "years_of a oys = {''2019'', ''2021'', ''2020''}"
    then show "filter (\<lambda>r. fst (snd r) = a) ?owners = [(f, a, ''2019, 2020, 2021'')]"
      by (rule t)
  qed
qed

theorem years_sorted_any_order_witness:
  "iter_ok (utc_env three_authors_run) \<and>
   subprocess_run (utc_env three_authors_run) (''git'' # log_cmd ''f'') =
     Inr (''C'' @ [NUL] @ ''1593561700'' @ [NL] @ ''A'' @ [NUL] @ ''1625097600'' @ [NL] @
          ''C'' @ [NUL] @ ''1625097700'' @ [NL] @ ''B'' @ [NUL] @ ''1593561600'' @ [NL] @
          ''A'' @ [NUL] @ ''1561939200'' @ [NL] @ ''C'' @ [NUL] @ ''1561939300'') \<and>
   history (utc_env three_authors_run)
     (''C'' @ [NUL] @ ''1593561700'' @ [NL] @ ''A'' @ [NUL] @ ''1625097600'' @ [NL] @
      ''C'' @ [NUL] @ ''1625097700'' @ [NL] @ ''B'' @ [NUL] @ ''1593561600'' @ [NL] @
      ''A'' @ [NUL] @ ''1561939200'' @ [NL] @ ''C'' @ [NUL] @ ''1561939300'') =
     Inr [(''C'', ''2019''), (''A'', ''2019''), (''B'', ''2020''), (''C'', ''2021''),
          (''A'', ''2021''), (''C'', ''2020'')] \<and>
   file_authors (utc_env three_authors_run) ''f'' =
     ([''git'' # log_cmd ''f''],
      Inr [(''f'', ''C'', ''2019, 2020, 2021''), (''f'', ''A'', ''2019, 2021''),
           (''f'', ''B'', ''2020'')]) \<and>
   years_of ''C'' [(''C'', ''2019''), (''A'', ''2019''), (''B'', ''2020''), (''C'', ''2021''),
          (''A'', ''2021''), (''C'', ''2020'')] = {''2019'', ''2021'', ''2020''} \<and>
   filter (\<lambda>r. fst (snd r) = ''C'')
     [(''f'', ''C'', ''2019, 2020, 2021''), (''f'', ''A'', ''2019, 2021''), (''f'', ''B'', ''2020'')] =
     [(''f'', ''C'', ''2019, 2020, 2021'')] \<and>
   ''A'' \<in> author_rewrite ` fst ` set [(''C'', ''2019''), (''A'', ''2019''), (''B'', ''2020''),
          (''C'', ''2021''), (''A'', ''2021''), (''C'', ''2020'')] \<and>
   filter (\<lambda>r. fst (snd r) = ''A'')
     [(''f'', ''C'', ''2019, 2020, 2021''), (''f'', ''A'', ''2019, 2021''), (''f'', ''B'', ''2020'')] =
     [(''f'', ''A'', join '', '' (sorted_list_of_set (years_of ''A''
        [(''C'', ''2019''), (''A'', ''2019''), (''B'', ''2020''), (''C'', ''2021''),
         (''A'', ''2021''), (''C'', ''2020'')])))]"
proof -
  let ?E = "utc_env three_authors_run"
  let ?out = "''C'' @ [NUL] @ ''1593561700'' @ [NL] @ ''A'' @ [NUL] @ ''1625097600'' @ [NL] @
      ''C'' @ [NUL] @ ''1625097700'' @ [NL] @ ''B'' @ [NUL] @ ''1593561600'' @ [NL] @
      ''A'' @ [NUL] @ ''1561939200'' @ [NL] @ ''C'' @ [NUL] @ ''1561939300''"
  let ?oys = "[(''C'', ''2019''), (''A'', ''2019''), (''B'', ''2020''), (''C'', ''2021''),
          (''A'', ''2021''), (''C'', ''2020'')]"
  let ?own = "[(''f'', ''C'', ''2019, 2020, 2021''), (''f'', ''A'', ''2019, 2021''),
           (''f'', ''B'', ''2020'')]"
  have i: "iter_ok ?E" by (rule iter_ok_utc_env)
  have l: "subprocess_run ?E (''git'' # log_cmd ''f'') = Inr ?out"
    by (simp add: utc_env_def three_authors_run_def)
  have h: "history ?E ?out = Inr ?oys" by (simp add: script_eval)
  have w: "author_rewrite ''A'' = ''A''" "author_rewrite ''B'' = ''B''" "author_rewrite ''C'' = ''C''"
    by (simp_all add: author_rewrite_def AUTHOR_REWRITE_def)
  have s: "set_iter ?E ?oys = ?oys" by (simp add: utc_env_def)
  have g: "fold group_step ?oys [] =
      [(''C'', [''2019'', ''2020'', ''2021'']), (''A'', [''2019'', ''2021'']), (''B'', [''2020''])]"
    by (simp add: group_step_def Let_def w)
  have k: "file_authors_of_log ?E ''f'' ?out = Inr ?own"
    unfolding file_authors_of_log_eq h sum.case s g by simp
  have e: "file_authors ?E ''f'' = ([''git'' # log_cmd ''f''], Inr ?own)"
    by (simp only: file_authors_eq l sum.case k)
  have y: "years_of ''C'' ?oys = {''2019'', ''2021'', ''2020''}"
    by (simp add: years_of_Cons years_of_Nil w insert_commute)
  have m: "''A'' \<in> author_rewrite ` fst ` set ?oys" by (simp add: w)
  from years_sorted_any_order [OF i l h] obtain owners where
    o: "file_authors ?E ''f'' = ([''git'' # log_cmd ''f''], Inr owners)"
    and a: "\<forall>a\<in>author_rewrite ` fst ` set ?oys.
              filter (\<lambda>r. fst (snd r) = a) owners =
                [(''f'', a, join '', '' (sorted_list_of_set (years_of a ?oys)))]"
    and c: "\<forall>a. years_of a ?oys = {''2019'', ''2021'', ''2020''} \<longrightarrow>
              filter (\<lambda>r. fst (snd r) = a) owners = [(''f'', a, ''2019, 2020, 2021'')]"
    by (elim exE conjE)
  from o e have q: "owners = ?own" by simp
  have fc: "filter (\<lambda>r. fst (snd r) = ''C'') ?own = [(''f'', ''C'', ''2019, 2020, 2021'')]"
    by (rule mp [OF spec [OF c [unfolded q]] y])
  have fa: "filter (\<lambda>r. fst (snd r) = ''A'') ?own =
     [(''f'', ''A'', join '', '' (sorted_list_of_set (years_of ''A'' ?oys)))]"
    by (rule bspec [OF a [unfolded q] m])
  show ?thesis
    by (intro conjI; (rule i | rule l | rule h | rule e | rule y | rule fc | rule m | rule fa))
qed

text \<open>
  C3 as stated speaks of every author of a file whose commits span the three years. It fails
  for a file with two authors: \<open>A\<close> committed in 2019 and 2021, \<open>B\<close> in 2020; the years
  of \<open>A\<close> are \<open>2019, 2021\<close> and those of \<open>B\<close> are \<open>2020\<close>.
\<close>

theorem years_for_each_author_counterexample:
  "history (utc_env (\<lambda>argv. Inr []))
     (''A'' @ [NUL] @ ''1625097600'' @ [NL] @ ''B'' @ [NUL] @ ''1593561600'' @ [NL] @
      ''A'' @ [NUL] @ ''1561939200'') =
     Inr [(''A'', ''2019''), (''B'', ''2020''), (''A'', ''2021'')] \<and>
   file_authors_of_log (utc_env (\<lambda>argv. Inr [])) ''f''
     (''A'' @ [NUL] @ ''1625097600'' @ [NL] @ ''B'' @ [NUL] @ ''1593561600'' @ [NL] @
      ''A'' @ [NUL] @ ''1561939200'') =
     Inr [(''f'', ''A'', ''2019, 2021''), (''f'', ''B'', ''2020'')] \<and>
   snd ` set [(''A'', ''2019''), (''B'', ''2020''), (''A'', ''2021'')] =
     {''2019'', ''2021'', ''2020''} \<and>
   \<not> (\<forall>r\<in>set [(''f'', ''A'', ''2019, 2021''), (''f'', ''B'', ''2020'')].
        snd (snd r) = ''2019, 2020, 2021'')"
proof -
  let ?E = "utc_env (\<lambda>argv. Inr [])"
  let ?out = "''A'' @ [NUL] @ ''1625097600'' @ [NL] @ ''B'' @ [NUL] @ ''1593561600'' @ [NL] @
      ''A'' @ [NUL] @ ''1561939200''"
  have h: "history ?E ?out = Inr [(''A'', ''2019''), (''B'', ''2020''), (''A'', ''2021'')]"
    by (simp add: script_eval)
  have r: "file_authors_of_log ?E ''f'' ?out =
      Inr [(''f'', ''A'', ''2019, 2021''), (''f'', ''B'', ''2020'')]"
    by (simp add: file_authors_of_log_eq script_eval group_step_def author_rewrite_def
        AUTHOR_REWRITE_def)
  have y: "snd ` set [(''A'', ''2019''), (''B'', ''2020''), (''A'', ''2021'')] =
      {''2019'', ''2021'', ''2020''}"
    by (simp add: insert_commute)
  have n: "\<not> (\<forall>r\<in>set [(''f'', ''A'', ''2019, 2021''), (''f'', ''B'', ''2020'')].
        snd (snd r) = ''2019, 2020, 2021'')"
    by simp
  show ?thesis
    by (intro conjI; (rule h | rule r | rule y | rule n))
qed

text \<open>
  C4. When the log of a file \<open>f\<close>, \<open>a.txt\<close> among them, holds commits by \<open>Alvar\<close> in 2020
  and by \<open>Alvar Penning\<close> in 2021, in any order and any number, \<open>file_authors\<close> starts
  \<open>git log\<close> once and returns exactly one ownership,
  \<open>(f, "Alvar Penning", "2020, 2021")\<close>.
\<close>

theorem alvar_scenario:
  assumes "iter_ok E" and "subprocess_run E (''git'' # log_cmd f) = Inr out"
    and "history E out = Inr oys"
    and "set oys = {(''Alvar'', strftime_Y E 2020), (''Alvar Penning'', strftime_Y E 2021)}"
  shows "file_authors E f = ([''git'' # log_cmd f], Inr [(f, ''Alvar Penning'', ''2020, 2021'')])"
proof -
  let ?it = "set_iter E oys"
  let ?g = "fold group_step ?it []"
  have s: "set ?it = {(''Alvar'', ''2020''), (''Alvar Penning'', ''2021'')}"
    using assms(1,4) by (simp add: iter_ok_def strftime_Y_2020 strftime_Y_2021)
  have "fst ` set ?g = {''Alvar Penning''}"
    unfolding grp_keys s by (simp add: alvar_rewrites)
  with grp_distinct have "\<exists>v. ?g = [(''Alvar Penning'', v)]"
    by (rule single_key)
  then obtain ys where g: "?g = [(''Alvar Penning'', ys)]" ..
  then have "(''Alvar Penning'', ys) \<in> set ?g" by simp
  then have "sorted ys \<and> distinct ys \<and> set ys = years_of ''Alvar Penning'' ?it"
    using grp_lookup by blast
  moreover have "years_of ''Alvar Penning'' ?it = {''2020'', ''2021''}"
  proof -
    have k: "years_of ''Alvar Penning'' [(''Alvar'', ''2020''), (''Alvar Penning'', ''2021'')] =
        {''2020'', ''2021''}"
      by (simp add: years_of_Cons alvar_rewrites years_of_Nil insert_commute)
    have "set ?it = set [(''Alvar'', ''2020''), (''Alvar Penning'', ''2021'')]"
      using s by simp
    then have "years_of ''Alvar Penning'' ?it =
        years_of ''Alvar Penning'' [(''Alvar'', ''2020''), (''Alvar Penning'', ''2021'')]"
      by (rule years_of_cong)
    with k show ?thesis by simp
  qed
  ultimately have "ys = [''2020'', ''2021'']" by (intro sorted_two) simp_all
  with g assms(3) have "file_authors_of_log E f out = Inr [(f, ''Alvar Penning'', ''2020, 2021'')]"
    by (simp add: file_authors_of_log_eq)
  then show ?thesis by (simp only: file_authors_eq assms(2) sum.case)
qed

theorem alvar_scenario_witness:
  "iter_ok (utc_env alvar_run) \<and>
   subprocess_run (utc_env alvar_run) (''git'' # log_cmd ''a.txt'') =
     Inr (''Alvar Penning'' @ [NUL] @ ''1620000000'' @ [NL] @ ''Alvar'' @ [NUL] @ ''1590000000'') \<and>
   utc_year 1590000000 = Inr 2020 \<and> utc_year 1620000000 = Inr 2021 \<and>
   history (utc_env alvar_run)
     (''Alvar Penning'' @ [NUL] @ ''1620000000'' @ [NL] @ ''Alvar'' @ [NUL] @ ''1590000000'') =
     Inr [(''Alvar'', ''2020''), (''Alvar Penning'', ''2021'')] \<and>
   file_authors (utc_env alvar_run) ''a.txt'' =
     ([''git'' # log_cmd ''a.txt''], Inr [(''a.txt'', ''Alvar Penning'', ''2020, 2021'')])"
proof -
  let ?E = "utc_env alvar_run"
  let ?out = "''Alvar Penning'' @ [NUL] @ ''1620000000'' @ [NL] @ ''Alvar'' @ [NUL] @ ''1590000000''"
  have i: "iter_ok ?E" by (rule iter_ok_utc_env)
  have l: "subprocess_run ?E (''git'' # log_cmd ''a.txt'') = Inr ?out"
    by (simp add: utc_env_def alvar_run_def)
  have h: "history ?E ?out = Inr [(''Alvar'', ''2020''), (''Alvar Penning'', ''2021'')]"
    by (simp add: script_eval)
  have s: "set [(''Alvar'', ''2020''), (''Alvar Penning'', ''2021'')] =
      {(''Alvar'', strftime_Y ?E 2020), (''Alvar Penning'', strftime_Y ?E 2021)}"
    by (simp add: strftime_Y_2020 strftime_Y_2021)
  have u1: "utc_year 1590000000 = Inr 2020" by (simp add: clock_eval)
  have u2: "utc_year 1620000000 = Inr 2021" by (simp add: clock_eval)
  show ?thesis
    by (intro conjI; (rule i | rule l | rule h | rule u1 | rule u2 | rule alvar_scenario [OF i l h s]))
qed

subsection \<open>The ownerships of a file\<close>

lemma owners_record:
  assumes "iter_ok E" and "file_authors_of_log E f out = Inr owners" and "r \<in> set owners"
  obtains a ys oys where "history E out = Inr oys" and "r = (f, a, join '', '' ys)"
    and "sorted ys" and "distinct ys" and "set ys = years_of a oys"
    and "split_cs (join '', '' ys) = ys" and "\<forall>y\<in>set ys. \<forall>c\<in>set y. is_digit c"
proof -
  from assms(2) obtain oys where h: "history E out = Inr oys"
    and o: "owners = map (\<lambda>(author, years). (f, author, join '', '' years))
              (fold group_step (set_iter E oys) [])"
    by (auto simp: file_authors_of_log_eq split: sum.splits)
  let ?it = "set_iter E oys"
  from assms(3) o obtain a ys where m: "(a, ys) \<in> set (fold group_step ?it [])"
    and r: "r = (f, a, join '', '' ys)" by auto
  have g: "sorted ys \<and> distinct ys \<and> ys \<noteq> [] \<and> set ys = years_of a ?it"
    using m by (rule grp_lookup)
  have "set ?it = set oys" using assms(1) by (simp add: iter_ok_def)
  then have y: "years_of a ?it = years_of a oys" by (rule years_of_cong)
  have d: "\<forall>c\<in>set y. is_digit c" if "y \<in> set ys" for y
  proof -
    from that g y obtain r' where "(r', y) \<in> set oys" by (auto simp: years_of_def)
    with h obtain n where "y = strftime_Y E n" using history_years by blast
    then show ?thesis by (simp add: strftime_Y_digits)
  qed
  then have "\<forall>y\<in>set ys. CHR '','' \<notin> set y" using digit_not_comma by blast
  with g have s: "split_cs (join '', '' ys) = ys" by (simp add: split_cs_join)
  show thesis using that [OF h r] g y s d by simp
qed

lemma numeric_order:
  assumes "sorted_wrt (<) ys" and "\<forall>y\<in>set ys. length y = n"
    and "\<forall>y\<in>set ys. \<forall>c\<in>set y. is_digit c"
  shows "sorted_wrt (<) (map dec_val ys)"
proof -
  have "sorted_wrt (\<lambda>x y. dec_val x < dec_val y) ys"
  proof (rule sorted_wrt_mono_rel [OF _ assms(1)])
    fix x y assume "x \<in> set ys" "y \<in> set ys" "x < y"
    then show "dec_val x < dec_val y"
      using lex_numeric [of x y] assms(2,3) by simp
  qed
  then show ?thesis by (simp add: sorted_wrt_map)
qed

lemma distinct_of_map: "distinct (map h xs) \<Longrightarrow> distinct xs"
  by (simp add: distinct_map)

lemma show_nat_length_4:
  assumes "1000 \<le> y" and "y \<le> 9999"
  shows "length (show_nat y) = 4"
proof -
  have a: "\<not> y < 10" "\<not> y div 10 < 10" "\<not> y div 10 div 10 < 10" "y div 10 div 10 div 10 < 10"
    using assms by auto
  show ?thesis
    using a
    by (subst show_nat.simps, subst show_nat.simps, subst show_nat.simps, subst show_nat.simps)
      simp
qed

lemma strftime_Y_length_4: "1000 \<le> y \<Longrightarrow> y \<le> 9999 \<Longrightarrow> length (strftime_Y E y) = 4"
  by (simp add: strftime_Y_def show_nat_length_4)

text \<open>
  C5. For every environment whose loop over a set visits the elements of the set, every
  file and every output of \<open>git log\<close>: the ownerships that \<open>file_authors\<close> returns have
  pairwise different (file, author) pairs and carry the file asked for; the years of each,
  read back with \<open>split(", ")\<close>, hold no year twice and increase strictly in the order of
  strings, and, when every year has four digits, in the order of numbers.
\<close>

theorem ownership_invariant:
  assumes "iter_ok E" and "file_authors_of_log E f out = Inr owners"
  shows "distinct (map (\<lambda>r. (fst r, fst (snd r))) owners) \<and>
         (\<forall>r\<in>set owners. fst r = f \<and>
            distinct (split_cs (snd (snd r))) \<and>
            sorted_wrt (<) (split_cs (snd (snd r))) \<and>
            ((\<forall>y\<in>set (split_cs (snd (snd r))). length y = 4) \<longrightarrow>
              sorted_wrt (<) (map dec_val (split_cs (snd (snd r))))))"
proof (rule conjI, goal_cases)
  case 1
  from assms(2) obtain oys where
    o: "owners = map (\<lambda>(author, years). (f, author, join '', '' years))
              (fold group_step (set_iter E oys) [])"
    by (auto simp: file_authors_of_log_eq split: sum.splits)
  have "map (\<lambda>r. fst (snd r)) owners = map fst (fold group_step (set_iter E oys) [])"
    unfolding o by (simp add: case_prod_beta)
  then have "distinct (map (\<lambda>r. fst (snd r)) owners)" by (simp add: grp_distinct)
  then have "distinct (map (snd \<circ> (\<lambda>r. (fst r, fst (snd r)))) owners)" by (simp add: comp_def)
  then have "distinct (map snd (map (\<lambda>r. (fst r, fst (snd r))) owners))" by simp
  then show ?case
    by (rule distinct_of_map)
next
  case 2
  show ?case
  proof (rule ballI)
  fix r assume r: "r \<in> set owners"
  from assms r obtain a ys oys where "r = (f, a, join '', '' ys)"
    and p: "sorted ys" "distinct ys" "split_cs (join '', '' ys) = ys"
      "\<forall>y\<in>set ys. \<forall>c\<in>set y. is_digit c"
    by (rule owners_record)
  then have e: "fst r = f" "split_cs (snd (snd r)) = ys" by simp_all
  have s: "sorted_wrt (<) ys" using p by (simp add: strict_sorted_iff)
  show "fst r = f \<and>
            distinct (split_cs (snd (snd r))) \<and>
            sorted_wrt (<) (split_cs (snd (snd r))) \<and>
            ((\<forall>y\<in>set (split_cs (snd (snd r))). length y = 4) \<longrightarrow>
              sorted_wrt (<) (map dec_val (split_cs (snd (snd r)))))"
    unfolding e using p s numeric_order [OF s _ p(4), of 4] by simp
  qed
qed

theorem ownership_invariant_witness:
  "iter_ok (utc_env (\<lambda>argv. Inr [])) \<and>
   file_authors_of_log (utc_env (\<lambda>argv. Inr [])) ''f''
     (''A'' @ [NUL] @ ''1625097600'' @ [NL] @ ''B'' @ [NUL] @ ''1593561600'' @ [NL] @
      ''A'' @ [NUL] @ ''1561939200'' @ [NL] @ ''A'' @ [NUL] @ ''1561939100'') =
     Inr [(''f'', ''A'', ''2019, 2021''), (''f'', ''B'', ''2020'')] \<and>
   distinct (map (\<lambda>r. (fst r, fst (snd r)))
     [(''f'', ''A'', ''2019, 2021''), (''f'', ''B'', ''2020'')]) \<and>
   split_cs ''2019, 2021'' = [''2019'', ''2021''] \<and>
   length ''2019'' = 4 \<and> length ''2021'' = 4 \<and>
   sorted_wrt (<) (map dec_val (split_cs ''2019, 2021''))"
proof -
  let ?E = "utc_env (\<lambda>argv. Inr [])"
  let ?out = "''A'' @ [NUL] @ ''1625097600'' @ [NL] @ ''B'' @ [NUL] @ ''1593561600'' @ [NL] @
      ''A'' @ [NUL] @ ''1561939200'' @ [NL] @ ''A'' @ [NUL] @ ''1561939100''"
  let ?owners = "[(''f'', ''A'', ''2019, 2021''), (''f'', ''B'', ''2020'')]"
  have i: "iter_ok ?E" by (rule iter_ok_utc_env)
  have r: "file_authors_of_log ?E ''f'' ?out = Inr ?owners"
    by (simp add: file_authors_of_log_eq script_eval group_step_def author_rewrite_def
        AUTHOR_REWRITE_def)
  note t = ownership_invariant [OF i r]
  have d: "distinct (map (\<lambda>r. (fst r, fst (snd r))) ?owners)"
    using t by (rule conjunct1)
  have s: "split_cs ''2019, 2021'' = [''2019'', ''2021'']" by simp
  have "(''f'', ''A'', ''2019, 2021'') \<in> set ?owners" by simp
  with t have "(\<forall>y\<in>set (split_cs ''2019, 2021''). length y = 4) \<longrightarrow>
      sorted_wrt (<) (map dec_val (split_cs ''2019, 2021''))"
    by fastforce
  then have n: "sorted_wrt (<) (map dec_val (split_cs ''2019, 2021''))"
    by (simp add: s)
  show ?thesis
    by (intro conjI; (rule i | rule r | rule d | rule s | rule n | simp))
qed

lemma dec_val_nines: "dec_val (replicate m CHR ''9'') = 10 ^ m - 1"
  by (induction m) (simp_all add: digit_val_def)

lemma dec_val_zeros_only: "dec_val (replicate k CHR ''0'') = 0"
  using dec_val_zeros [of k "[]"] by simp

lemma dec_val_one_zeros: "dec_val (CHR ''1'' # replicate k CHR ''0'') = 10 ^ k"
  by (simp add: dec_val_zeros_only digit_val_def)

lemma lengths_disagree:
  assumes "0 < m" and "m < n"
  shows "\<exists>x y. length x = m \<and> length y = n \<and>
           (\<forall>c\<in>set x. is_digit c) \<and> (\<forall>c\<in>set y. is_digit c) \<and>
           y < x \<and> dec_val x < dec_val y"
proof -
  let ?x = "replicate m CHR ''9''"
  let ?y = "CHR ''1'' # replicate (n - 1) CHR ''0''"
  have d: "is_digit CHR ''9''" "is_digit CHR ''1''" "is_digit CHR ''0''"
    by (simp_all add: is_digit_def)
  obtain k where m: "m = Suc k" using assms(1) by (cases m) auto
  have lx: "length ?x = m" by simp
  have ly: "length ?y = n" using assms by simp
  have dx: "\<forall>c\<in>set ?x. is_digit c" using d by simp
  have dy: "\<forall>c\<in>set ?y. is_digit c" using d by simp
  have lt: "?y < ?x" unfolding m by simp
  have p: "(10::int) ^ m \<le> 10 ^ (n - 1)"
    using assms(2) by (intro power_increasing) simp_all
  have nv: "dec_val ?x < dec_val ?y"
    unfolding dec_val_nines dec_val_one_zeros using p by linarith
  from lx ly dx dy lt nv show ?thesis by blast
qed

text \<open>
  C10. The years of an ownership are the distinct year strings of its author in ascending
  order of strings, which is the lexicographic order by code point. When all of them have
  the same number of digits the numbers they denote ascend as well, and every year from
  1000 to 9999 has four digits. Strings of different lengths need not be in numeric order:
  where \<open>strftime\<close> does not pad, commits in the years 999 and 1000 give the years
  \<open>1000, 999\<close>; and for any two different numbers of digits there are strings of digits
  of these lengths whose order as strings is the reverse of their order as numbers.
\<close>

theorem years_in_string_order:
  assumes "iter_ok E" and "history E out = Inr oys"
    and "file_authors_of_log E f out = Inr owners" and "(f, a, years) \<in> set owners"
  shows "split_cs years = sorted_list_of_set (years_of a oys) \<and>
         ((\<forall>y\<in>years_of a oys. length y = n) \<longrightarrow>
            sorted_wrt (<) (map dec_val (split_cs years))) \<and>
         (\<forall>y. 1000 \<le> y \<and> y \<le> 9999 \<longrightarrow> length (strftime_Y E y) = 4) \<and>
         file_authors_of_log (utc_env (\<lambda>argv. Inr [])) ''f''
           (''A'' @ [NUL] @ ''-30610224000'' @ [NL] @ ''A'' @ [NUL] @ ''-30610224001'') =
           Inr [(''f'', ''A'', ''1000, 999'')] \<and>
         dec_val ''999'' < dec_val ''1000'' \<and>
         (\<forall>k m. 0 < k \<and> k < m \<longrightarrow>
            (\<exists>x y. length x = k \<and> length y = m \<and>
               (\<forall>c\<in>set x. is_digit c) \<and> (\<forall>c\<in>set y. is_digit c) \<and>
               y < x \<and> dec_val x < dec_val y))"
proof -
  from assms(1,3,4) obtain a' ys oys' where h: "history E out = Inr oys'"
    and r: "(f, a, years) = (f, a', join '', '' ys)"
    and p: "sorted ys" "distinct ys" "set ys = years_of a' oys'"
      "split_cs (join '', '' ys) = ys" "\<forall>y\<in>set ys. \<forall>c\<in>set y. is_digit c"
    by (rule owners_record)
  from h assms(2) have o: "oys' = oys" by simp
  from r have e: "a' = a" "years = join '', '' ys" by simp_all
  have s: "split_cs years = ys" using p(4) e by simp
  have y: "set ys = years_of a oys" using p(3) o e by simp
  have "sorted_list_of_set (set ys) = ys"
    using p(1,2) by (rule sorted_list_of_set.idem_if_sorted_distinct)
  then have c1: "split_cs years = sorted_list_of_set (years_of a oys)"
    using s y by simp
  have w: "sorted_wrt (<) ys" using p(1,2) by (simp add: strict_sorted_iff)
  have c2: "(\<forall>y\<in>years_of a oys. length y = n) \<longrightarrow>
            sorted_wrt (<) (map dec_val (split_cs years))"
    unfolding s y [symmetric] using numeric_order [OF w _ p(5), of n] by blast
  have c3: "\<forall>y. 1000 \<le> y \<and> y \<le> 9999 \<longrightarrow> length (strftime_Y E y) = 4"
    by (simp add: strftime_Y_length_4)
  have c4: "file_authors_of_log (utc_env (\<lambda>argv. Inr [])) ''f''
           (''A'' @ [NUL] @ ''-30610224000'' @ [NL] @ ''A'' @ [NUL] @ ''-30610224001'') =
           Inr [(''f'', ''A'', ''1000, 999'')]"
    by (simp add: file_authors_of_log_eq script_eval group_step_def author_rewrite_def
        AUTHOR_REWRITE_def)
  have c5: "dec_val ''999'' < dec_val ''1000''"
    by (simp add: digit_val_def)
  have c6: "\<forall>k m. 0 < k \<and> k < m \<longrightarrow>
            (\<exists>x y. length x = k \<and> length y = m \<and>
               (\<forall>c\<in>set x. is_digit c) \<and> (\<forall>c\<in>set y. is_digit c) \<and>
               y < x \<and> dec_val x < dec_val y)"
    using lengths_disagree by blast
  from c1 c2 c3 c4 c5 c6 show ?thesis by (intro conjI)
qed

theorem years_in_string_order_witness:
  "iter_ok (utc_env (\<lambda>argv. Inr [])) \<and>
   history (utc_env (\<lambda>argv. Inr []))
     (''A'' @ [NUL] @ ''1593561600'' @ [NL] @ ''A'' @ [NUL] @ ''1625097600'' @ [NL] @
      ''A'' @ [NUL] @ ''1561939200'') =
     Inr [(''A'', ''2019''), (''A'', ''2021''), (''A'', ''2020'')] \<and>
   file_authors_of_log (utc_env (\<lambda>argv. Inr [])) ''f''
     (''A'' @ [NUL] @ ''1593561600'' @ [NL] @ ''A'' @ [NUL] @ ''1625097600'' @ [NL] @
      ''A'' @ [NUL] @ ''1561939200'') =
     Inr [(''f'', ''A'', ''2019, 2020, 2021'')] \<and>
   years_of ''A'' [(''A'', ''2019''), (''A'', ''2021''), (''A'', ''2020'')] =
     {''2019'', ''2021'', ''2020''} \<and>
   split_cs ''2019, 2020, 2021'' =
     sorted_list_of_set (years_of ''A'' [(''A'', ''2019''), (''A'', ''2021''), (''A'', ''2020'')]) \<and>
   split_cs ''2019, 2020, 2021'' = [''2019'', ''2020'', ''2021''] \<and>
   sorted_wrt (<) (map dec_val (split_cs ''2019, 2020, 2021'')) \<and>
   map dec_val (split_cs ''2019, 2020, 2021'') = [2019, 2020, 2021]"
proof -
  let ?E = "utc_env (\<lambda>argv. Inr [])"
  let ?out = "''A'' @ [NUL] @ ''1593561600'' @ [NL] @ ''A'' @ [NUL] @ ''1625097600'' @ [NL] @
      ''A'' @ [NUL] @ ''1561939200''"
  let ?oys = "[(''A'', ''2019''), (''A'', ''2021''), (''A'', ''2020'')]"
  have i: "iter_ok ?E" by (rule iter_ok_utc_env)
  have h: "history ?E ?out = Inr ?oys" by (simp add: script_eval)
  have r: "file_authors_of_log ?E ''f'' ?out = Inr [(''f'', ''A'', ''2019, 2020, 2021'')]"
    by (simp add: file_authors_of_log_eq script_eval group_step_def author_rewrite_def
        AUTHOR_REWRITE_def)
  have m: "(''f'', ''A'', ''2019, 2020, 2021'') \<in> set [(''f'', ''A'', ''2019, 2020, 2021'')]"
    by simp
  have a: "author_rewrite ''A'' = ''A''"
    by (simp add: author_rewrite_def AUTHOR_REWRITE_def)
  have y: "years_of ''A'' ?oys = {''2019'', ''2021'', ''2020''}"
    by (simp add: years_of_Cons years_of_Nil a insert_commute)
  note t = years_in_string_order [OF i h r m, of 4]
  have c1: "split_cs ''2019, 2020, 2021'' = sorted_list_of_set (years_of ''A'' ?oys)"
    using t by (rule conjunct1)
  have "(\<forall>y\<in>years_of ''A'' ?oys. length y = 4) \<longrightarrow>
      sorted_wrt (<) (map dec_val (split_cs ''2019, 2020, 2021''))"
    using t by (elim conjE)
  then have c2: "sorted_wrt (<) (map dec_val (split_cs ''2019, 2020, 2021''))"
    unfolding y by simp
  have s: "split_cs ''2019, 2020, 2021'' = [''2019'', ''2020'', ''2021'']" by simp
  have v: "map dec_val (split_cs ''2019, 2020, 2021'') = [2019, 2020, 2021]"
    by (simp add: digit_val_def)
  show ?thesis
    by (intro conjI; (rule i | rule h | rule r | rule y | rule c1 | rule c2 | rule s | rule v))
qed

subsection \<open>The splitting of the list of files\<close>

lemma split_ws_from_space:
  "is_space c \<Longrightarrow> split_ws_from w (a @ c # b) = split_ws_from w a @ split_ws_from [] b"
  by (induction a arbitrary: w) simp_all

lemma split_ws_space: "is_space c \<Longrightarrow> split_ws (a @ c # b) = split_ws a @ split_ws b"
  by (simp add: split_ws_def split_ws_from_space)

lemma split_ws_from_fragment:
  "x \<in> set (split_ws_from w s) \<Longrightarrow> \<forall>c\<in>set w. \<not> is_space c \<Longrightarrow> \<forall>c\<in>set x. \<not> is_space c"
proof (induction s arbitrary: w)
  case Nil
  then show ?case by (simp split: if_splits)
next
  case (Cons c s)
  show ?case
  proof (cases "is_space c")
    case True
    with Cons.prems(1) have "x = w \<or> x \<in> set (split_ws_from [] s)"
      by (simp split: if_splits)
    then show ?thesis using Cons.prems(2) Cons.IH [of "[]"] by auto
  next
    case False
    with Cons.prems have "x \<in> set (split_ws_from (w @ [c]) s)" and "\<forall>c\<in>set (w @ [c]). \<not> is_space c"
      by simp_all
    then show ?thesis by (rule Cons.IH)
  qed
qed

lemma split_ws_fragment: "x \<in> set (split_ws s) \<Longrightarrow> c \<in> set x \<Longrightarrow> \<not> is_space c"
  using split_ws_from_fragment [of x "[]" s] by (simp add: split_ws_def)

lemma split_ws_from_nonempty:
  "w \<noteq> [] \<or> (\<exists>x\<in>set s. \<not> is_space x) \<Longrightarrow> split_ws_from w s \<noteq> []"
  by (induction s arbitrary: w) auto

lemma split_ws_nonempty: "\<exists>x\<in>set s. \<not> is_space x \<Longrightarrow> split_ws s \<noteq> []"
  by (simp add: split_ws_def split_ws_from_nonempty)

lemma is_space_NL: "is_space NL"
  by (simp add: is_space_def NL_def)

lemma split_ws_ls_files: "split_ws (ls_files_output paths) = concat (map split_ws paths)"
proof (induction paths)
  case Nil
  show ?case by (simp add: ls_files_output_def split_ws_def)
next
  case (Cons p ps)
  have "split_ws (p @ NL # ls_files_output ps) = split_ws p @ split_ws (ls_files_output ps)"
    using is_space_NL by (rule split_ws_space)
  with Cons show ?case by (simp add: ls_files_output_def)
qed

lemma split_ws_two:
  assumes "is_space c" and "\<exists>x\<in>set u. \<not> is_space x" and "\<exists>x\<in>set v. \<not> is_space x"
  shows "2 \<le> length (split_ws (u @ c # v))"
proof -
  have "split_ws u \<noteq> []" "split_ws v \<noteq> []" using assms(2,3) by (simp_all add: split_ws_nonempty)
  then have "1 \<le> length (split_ws u)" "1 \<le> length (split_ws v)"
    by (simp_all add: Suc_le_eq)
  then show ?thesis using assms(1) by (simp add: split_ws_space)
qed

lemma split_ws_from_lead:
  "\<forall>x\<in>set l. is_space x \<Longrightarrow> split_ws_from [] (l @ s) = split_ws_from [] s"
  by (induction l) simp_all

lemma split_ws_from_core:
  "\<forall>x\<in>set core. \<not> is_space x \<Longrightarrow> split_ws_from w (core @ s) = split_ws_from (w @ core) s"
  by (induction core arbitrary: w) simp_all

lemma split_ws_from_trail:
  "\<forall>x\<in>set t. is_space x \<Longrightarrow> split_ws_from w t = (if w = [] then [] else [w])"
proof (induction t arbitrary: w)
  case Nil
  show ?case by simp
next
  case (Cons c cs)
  then have "split_ws_from [] cs = []" by simp
  with Cons.prems show ?case by simp
qed

lemma split_ws_trim:
  assumes "\<forall>x\<in>set l. is_space x" and "\<forall>x\<in>set core. \<not> is_space x" and "\<forall>x\<in>set t. is_space x"
  shows "split_ws (l @ core @ t) = (if core = [] then [] else [core])"
proof -
  have "split_ws (l @ core @ t) = split_ws_from [] (core @ t)"
    unfolding split_ws_def using assms(1) by (rule split_ws_from_lead)
  also have "\<dots> = split_ws_from ([] @ core) t" using assms(2) by (rule split_ws_from_core)
  also have "\<dots> = (if core = [] then [] else [core])"
    using split_ws_from_trail [OF assms(3), of core] by simp
  finally show ?thesis .
qed

lemma split_ws_line:
  "split_ws (ls_files_output (pre @ p # post)) =
     split_ws (ls_files_output pre) @ split_ws p @ split_ws (ls_files_output post)"
  by (simp add: split_ws_ls_files)

subsection \<open>The processes that the main program starts\<close>

lemma file_authors_file:
  assumes "snd (file_authors E f) = Inr os" and "r \<in> set os"
  shows "fst r = f"
proof -
  from assms(1) obtain out where "file_authors_of_log E f out = Inr os"
    by (auto simp: file_authors_eq split: sum.splits)
  with assms(2) show ?thesis
    by (auto simp: file_authors_of_log_eq split: sum.splits)
qed

lemma collect_owners_Cons:
  "collect_owners E (f # fs) acc =
     (case snd (file_authors E f) of
        Inl e \<Rightarrow> ([''git'' # log_cmd f], Inl e)
      | Inr os \<Rightarrow>
          ((''git'' # log_cmd f) # fst (collect_owners E fs (acc @ os)),
           snd (collect_owners E fs (acc @ os))))"
  by (simp add: file_authors_eq split: sum.splits prod.splits)

declare collect_owners.simps(2) [simp del]

lemma collect_owners_trace:
  "c \<in> set (fst (collect_owners E fs acc)) \<Longrightarrow> \<exists>f\<in>set fs. c = ''git'' # log_cmd f"
proof (induction fs arbitrary: acc)
  case Nil
  then show ?case by simp
next
  case (Cons f fs)
  show ?case
  proof (cases "snd (file_authors E f)")
    case (Inl e)
    with Cons.prems have "c = ''git'' # log_cmd f" by (simp add: collect_owners_Cons)
    then show ?thesis by simp
  next
    case (Inr os)
    with Cons.prems have "c = ''git'' # log_cmd f \<or> c \<in> set (fst (collect_owners E fs (acc @ os)))"
      by (simp add: collect_owners_Cons)
    then show ?thesis using Cons.IH [of "acc @ os"] by auto
  qed
qed

lemma collect_owners_result:
  "snd (collect_owners E fs acc) = Inr owners \<Longrightarrow> r \<in> set owners \<Longrightarrow>
   r \<in> set acc \<or> fst r \<in> set fs"
proof (induction fs arbitrary: acc)
  case Nil
  then show ?case by simp
next
  case (Cons f fs)
  show ?case
  proof (cases "snd (file_authors E f)")
    case (Inl e)
    with Cons.prems show ?thesis by (simp add: collect_owners_Cons)
  next
    case (Inr os)
    with Cons.prems have "snd (collect_owners E fs (acc @ os)) = Inr owners"
      by (simp add: collect_owners_Cons)
    then have "r \<in> set (acc @ os) \<or> fst r \<in> set fs"
      using Cons.prems(2) by (rule Cons.IH)
    then show ?thesis using file_authors_file [OF Inr, of r] by auto
  qed
qed

lemma collect_owners_abort:
  assumes "\<forall>g\<in>set pre. \<exists>os. snd (file_authors E g) = Inr os"
    and "snd (file_authors E f) = Inl e"
  shows "collect_owners E (pre @ f # post) acc = (map (\<lambda>g. ''git'' # log_cmd g) (pre @ [f]), Inl e)"
  using assms(1)
proof (induction pre arbitrary: acc)
  case Nil
  show ?case using assms(2) by (simp add: collect_owners_Cons)
next
  case (Cons g pre)
  then obtain os where os: "snd (file_authors E g) = Inr os" by auto
  have "collect_owners E (pre @ f # post) (acc @ os) =
      (map (\<lambda>g. ''git'' # log_cmd g) (pre @ [f]), Inl e)"
    using Cons by simp
  then show ?case using os by (simp add: collect_owners_Cons)
qed

lemma apply_headers_trace:
  "c \<in> set (fst (apply_headers E owners)) \<Longrightarrow>
   \<exists>r\<in>set owners. c = addheader_cmd (fst r) (fst (snd r)) (snd (snd r)) DEFAULT_LICENSE"
proof (induction owners)
  case Nil
  then show ?case by simp
next
  case (Cons r owners)
  obtain f a y where r: "r = (f, a, y)" by (cases r) auto
  show ?case
  proof (cases "subprocess_run E (addheader_cmd f a y DEFAULT_LICENSE)")
    case (Inl e)
    with Cons.prems r have "c = addheader_cmd f a y DEFAULT_LICENSE"
      by (simp add: reuse_addheader_def)
    with r show ?thesis by simp
  next
    case (Inr out)
    with Cons.prems r have "c = addheader_cmd f a y DEFAULT_LICENSE \<or>
        c \<in> set (fst (apply_headers E owners))"
      by (auto simp: reuse_addheader_def split: prod.splits)
    then show ?thesis using Cons.IH r by auto
  qed
qed

lemma cmd_facts:
  "''git'' # log_cmd p \<noteq> ''git'' # ls_files_cmd"
  "(''git'' # log_cmd p = ''git'' # log_cmd f) = (p = f)"
  "''git'' # log_cmd p \<noteq> addheader_cmd f a y l"
  "addheader_cmd p a y l \<noteq> ''git'' # ls_files_cmd"
  "addheader_cmd p a y l \<noteq> ''git'' # log_cmd f"
  "(addheader_cmd p a y l = addheader_cmd f a' y' l') = (a = a' \<and> y = y' \<and> l = l' \<and> p = f)"
  "log_cmd p \<noteq> ls_files_cmd"
  "(log_cmd p = log_cmd f) = (p = f)"
  by (simp_all add: log_cmd_def ls_files_cmd_def addheader_cmd_def)

lemma resolve_eq:
  "resolve E =
     (case subprocess_run E (''git'' # ls_files_cmd) of
        Inl e \<Rightarrow> ([''git'' # ls_files_cmd], Inl e)
      | Inr out \<Rightarrow>
          ((''git'' # ls_files_cmd) #
             fst (collect_owners E (filter (\<lambda>f. f \<notin> set FILE_IGNORE) (split_ws out)) []),
           snd (collect_owners E (filter (\<lambda>f. f \<notin> set FILE_IGNORE) (split_ws out)) [])))"
  by (simp add: resolve_def tracked_files_def git_def split: sum.splits prod.splits)

lemma main_eq:
  "main E =
     (case snd (resolve E) of
        Inl e \<Rightarrow> (fst (resolve E), Inl e)
      | Inr owners \<Rightarrow>
          (fst (resolve E) @ fst (apply_headers E owners), snd (apply_headers E owners)))"
  by (simp add: main_def split: sum.splits prod.splits)

lemma resolve_trace:
  assumes "c \<in> set (fst (resolve E))"
  shows "c = ''git'' # ls_files_cmd \<or>
         (\<exists>out f. subprocess_run E (''git'' # ls_files_cmd) = Inr out \<and>
            f \<in> set (split_ws out) \<and> f \<notin> set FILE_IGNORE \<and> c = ''git'' # log_cmd f)"
proof (cases "subprocess_run E (''git'' # ls_files_cmd)")
  case (Inl e)
  with assms show ?thesis by (simp add: resolve_eq)
next
  case (Inr out)
  let ?files = "filter (\<lambda>f. f \<notin> set FILE_IGNORE) (split_ws out)"
  from assms Inr have "c = ''git'' # ls_files_cmd \<or> c \<in> set (fst (collect_owners E ?files []))"
    by (simp add: resolve_eq)
  then show ?thesis
  proof
    assume "c = ''git'' # ls_files_cmd"
    then show ?thesis ..
  next
    assume "c \<in> set (fst (collect_owners E ?files []))"
    then obtain f where "f \<in> set ?files" and "c = ''git'' # log_cmd f"
      using collect_owners_trace by blast
    with Inr show ?thesis by auto
  qed
qed

lemma resolve_result:
  assumes "snd (resolve E) = Inr owners" and "r \<in> set owners"
  shows "\<exists>out. subprocess_run E (''git'' # ls_files_cmd) = Inr out \<and>
           fst r \<in> set (split_ws out) \<and> fst r \<notin> set FILE_IGNORE"
proof (cases "subprocess_run E (''git'' # ls_files_cmd)")
  case (Inl e)
  with assms show ?thesis by (simp add: resolve_eq)
next
  case (Inr out)
  let ?files = "filter (\<lambda>f. f \<notin> set FILE_IGNORE) (split_ws out)"
  from assms(1) Inr have "snd (collect_owners E ?files []) = Inr owners"
    by (simp add: resolve_eq)
  then have "r \<in> set [] \<or> fst r \<in> set ?files"
    using assms(2) by (rule collect_owners_result)
  with Inr show ?thesis by simp
qed

lemma main_trace:
  assumes "c \<in> set (fst (main E))"
  shows "c \<in> set (fst (resolve E)) \<or>
         (\<exists>owners. snd (resolve E) = Inr owners \<and>
            (\<exists>r\<in>set owners. c = addheader_cmd (fst r) (fst (snd r)) (snd (snd r)) DEFAULT_LICENSE))"
proof (cases "snd (resolve E)")
  case (Inl e)
  with assms show ?thesis by (simp add: main_eq)
next
  case (Inr owners)
  with assms have "c \<in> set (fst (resolve E)) \<or> c \<in> set (fst (apply_headers E owners))"
    by (simp add: main_eq)
  then show ?thesis using apply_headers_trace [of c E owners] Inr by auto
qed

lemma main_log_call:
  assumes "''git'' # log_cmd p \<in> set (fst (main E))"
  shows "\<exists>out. subprocess_run E (''git'' # ls_files_cmd) = Inr out \<and>
           p \<in> set (split_ws out) \<and> p \<notin> set FILE_IGNORE"
proof -
  from main_trace [OF assms] have "''git'' # log_cmd p \<in> set (fst (resolve E))"
    by (auto simp: cmd_facts)
  from resolve_trace [OF this] show ?thesis by (auto simp: cmd_facts)
qed

lemma main_header_call:
  assumes "addheader_cmd p a y l \<in> set (fst (main E))"
  shows "\<exists>out. subprocess_run E (''git'' # ls_files_cmd) = Inr out \<and>
           p \<in> set (split_ws out) \<and> p \<notin> set FILE_IGNORE"
proof -
  from main_trace [OF assms] consider
    (git) "addheader_cmd p a y l \<in> set (fst (resolve E))"
    | (reuse) owners r where "snd (resolve E) = Inr owners" "r \<in> set owners"
        "addheader_cmd p a y l = addheader_cmd (fst r) (fst (snd r)) (snd (snd r)) DEFAULT_LICENSE"
    by blast
  then show ?thesis
  proof cases
    case git
    from resolve_trace [OF this] show ?thesis by (auto simp: cmd_facts)
  next
    case reuse
    from reuse(3) have "fst r = p" by (simp add: cmd_facts)
    with resolve_result [OF reuse(1,2)] show ?thesis by simp
  qed
qed

lemmas main_eval = main_def resolve_def tracked_files_def git_def file_authors_def
  reuse_addheader_def collect_owners.simps ls_files_output_def split_ws_def is_space_def
  FILE_IGNORE_def log_cmd_def ls_files_cmd_def addheader_cmd_def
  file_authors_of_log_eq script_eval group_step_def author_rewrite_def AUTHOR_REWRITE_def

text \<open>
  C6. For every path of the exclusion list and every environment, whatever
  \<open>git ls-files\<close> lists and whatever history the path has: the main program starts neither
  \<open>git log\<close> nor \<open>reuse addheader\<close> for the path, and the owners it collects hold no
  ownership of it. The list of files is filtered before \<open>file_authors\<close> is called.
\<close>

theorem excluded_files_skipped:
  assumes "p \<in> set FILE_IGNORE"
  shows "''git'' # log_cmd p \<notin> set (fst (main E)) \<and>
         addheader_cmd p author years license \<notin> set (fst (main E)) \<and>
         (\<forall>owners. snd (resolve E) = Inr owners \<longrightarrow> (\<forall>r\<in>set owners. fst r \<noteq> p))"
  using assms main_log_call [of p E] main_header_call [of p author years license E]
    resolve_result [of E]
  by blast

theorem excluded_files_skipped_witness:
  "''go.mod'' \<in> set FILE_IGNORE \<and>
   subprocess_run (utc_env sample_run) (''git'' # ls_files_cmd) =
     Inr (ls_files_output [''go.mod'', ''main.go'']) \<and>
   snd (file_authors (utc_env sample_run) ''go.mod'') = Inr [(''go.mod'', ''A'', ''2020'')] \<and>
   main (utc_env sample_run) =
     ([''git'' # ls_files_cmd, ''git'' # log_cmd ''main.go'',
       addheader_cmd ''main.go'' ''A'' ''2020'' DEFAULT_LICENSE], Inr ()) \<and>
   snd (resolve (utc_env sample_run)) = Inr [(''main.go'', ''A'', ''2020'')] \<and>
   ''git'' # log_cmd ''go.mod'' \<notin> set (fst (main (utc_env sample_run)))"
proof -
  have m: "''go.mod'' \<in> set FILE_IGNORE" by (simp add: FILE_IGNORE_def)
  have l: "subprocess_run (utc_env sample_run) (''git'' # ls_files_cmd) =
     Inr (ls_files_output [''go.mod'', ''main.go''])"
    by (simp add: utc_env_def sample_run_def)
  have h: "snd (file_authors (utc_env sample_run) ''go.mod'') = Inr [(''go.mod'', ''A'', ''2020'')]"
    by (simp add: main_eval sample_run_def)
  have r: "snd (resolve (utc_env sample_run)) = Inr [(''main.go'', ''A'', ''2020'')]"
    by (simp add: main_eval sample_run_def)
  have e: "main (utc_env sample_run) =
     ([''git'' # ls_files_cmd, ''git'' # log_cmd ''main.go'',
       addheader_cmd ''main.go'' ''A'' ''2020'' DEFAULT_LICENSE], Inr ())"
    by (simp add: main_eval sample_run_def)
  have t: "''git'' # log_cmd ''go.mod'' \<notin> set (fst (main (utc_env sample_run)))"
    using excluded_files_skipped [OF m, of "utc_env sample_run"] by (rule conjunct1)
  show ?thesis
    by (intro conjI; (rule m | rule l | rule h | rule r | rule e | rule t))
qed

text \<open>
  C7. When \<open>git log\<close> exits with a status other than zero for a file, \<open>file_authors\<close>
  raises the error of \<open>subprocess.run\<close>, having started \<open>git log\<close> once. The collecting
  loop stops at that file: the files before it were queried once each, the file once, the
  files after it not at all, and the value is the error, so no ownership of the file is
  produced. The main program ends with the error and starts no \<open>reuse addheader\<close>.
\<close>

theorem git_failure_aborts:
  assumes "subprocess_run E (''git'' # log_cmd f) = Inl e"
  shows "file_authors E f = ([''git'' # log_cmd f], Inl e) \<and>
         (\<forall>pre post acc.
            (\<forall>g\<in>set pre. \<exists>os. snd (file_authors E g) = Inr os) \<longrightarrow>
            collect_owners E (pre @ f # post) acc =
              (map (\<lambda>g. ''git'' # log_cmd g) (pre @ [f]), Inl e)) \<and>
         (\<forall>out pre post.
            subprocess_run E (''git'' # ls_files_cmd) = Inr out \<and>
            filter (\<lambda>g. g \<notin> set FILE_IGNORE) (split_ws out) = pre @ f # post \<and>
            (\<forall>g\<in>set pre. \<exists>os. snd (file_authors E g) = Inr os) \<longrightarrow>
            main E =
              ((''git'' # ls_files_cmd) # map (\<lambda>g. ''git'' # log_cmd g) (pre @ [f]), Inl e))"
proof -
  have a: "file_authors E f = ([''git'' # log_cmd f], Inl e)"
    using assms by (simp add: file_authors_eq)
  then have s: "snd (file_authors E f) = Inl e" by simp
  have b: "collect_owners E (pre @ f # post) acc =
              (map (\<lambda>g. ''git'' # log_cmd g) (pre @ [f]), Inl e)"
    if "\<forall>g\<in>set pre. \<exists>os. snd (file_authors E g) = Inr os" for pre post acc
    using that s by (rule collect_owners_abort)
  have c: "main E = ((''git'' # ls_files_cmd) # map (\<lambda>g. ''git'' # log_cmd g) (pre @ [f]), Inl e)"
    if "subprocess_run E (''git'' # ls_files_cmd) = Inr out"
      and "filter (\<lambda>g. g \<notin> set FILE_IGNORE) (split_ws out) = pre @ f # post"
      and "\<forall>g\<in>set pre. \<exists>os. snd (file_authors E g) = Inr os" for out pre post
  proof -
    have "resolve E = ((''git'' # ls_files_cmd) # map (\<lambda>g. ''git'' # log_cmd g) (pre @ [f]), Inl e)"
      using that(1,2) b [OF that(3), of post "[]"] by (simp add: resolve_eq)
    then show ?thesis by (simp add: main_eq)
  qed
  show ?thesis
  proof (intro conjI allI impI)
    show "file_authors E f = ([''git'' # log_cmd f], Inl e)" by (rule a)
  next
    fix pre post acc
    assume "\<forall>g\<in>set pre. \<exists>os. snd (file_authors E g) = Inr os"
    then show "collect_owners E (pre @ f # post) acc =
              (map (\<lambda>g. ''git'' # log_cmd g) (pre @ [f]), Inl e)" by (rule b)
  next
    fix out pre post
    assume "subprocess_run E (''git'' # ls_files_cmd) = Inr out \<and>
            filter (\<lambda>g. g \<notin> set FILE_IGNORE) (split_ws out) = pre @ f # post \<and>
            (\<forall>g\<in>set pre. \<exists>os. snd (file_authors E g) = Inr os)"
    then show "main E =
              ((''git'' # ls_files_cmd) # map (\<lambda>g. ''git'' # log_cmd g) (pre @ [f]), Inl e)"
      using c by blast
  qed
qed

theorem git_failure_aborts_witness:
  "subprocess_run (utc_env failing_run) (''git'' # log_cmd ''b.txt'') = Inl CalledProcessError \<and>
   subprocess_run (utc_env failing_run) (''git'' # ls_files_cmd) =
     Inr (ls_files_output [''a.txt'', ''b.txt'', ''c.txt'']) \<and>
   filter (\<lambda>g. g \<notin> set FILE_IGNORE) (split_ws (ls_files_output [''a.txt'', ''b.txt'', ''c.txt''])) =
     [''a.txt''] @ ''b.txt'' # [''c.txt''] \<and>
   snd (file_authors (utc_env failing_run) ''a.txt'') = Inr [(''a.txt'', ''A'', ''2020'')] \<and>
   file_authors (utc_env failing_run) ''b.txt'' =
     ([''git'' # log_cmd ''b.txt''], Inl CalledProcessError) \<and>
   main (utc_env failing_run) =
     ((''git'' # ls_files_cmd) # map (\<lambda>g. ''git'' # log_cmd g) ([''a.txt''] @ [''b.txt'']),
      Inl CalledProcessError)"
proof -
  let ?E = "utc_env failing_run"
  have f: "subprocess_run ?E (''git'' # log_cmd ''b.txt'') = Inl CalledProcessError"
    by (simp add: utc_env_def failing_run_def log_cmd_def ls_files_cmd_def)
  have l: "subprocess_run ?E (''git'' # ls_files_cmd) =
     Inr (ls_files_output [''a.txt'', ''b.txt'', ''c.txt''])"
    by (simp add: utc_env_def failing_run_def)
  have s: "filter (\<lambda>g. g \<notin> set FILE_IGNORE)
      (split_ws (ls_files_output [''a.txt'', ''b.txt'', ''c.txt''])) =
     [''a.txt''] @ ''b.txt'' # [''c.txt'']"
    by (simp add: ls_files_output_def split_ws_def is_space_def NL_def FILE_IGNORE_def)
  have a: "snd (file_authors ?E ''a.txt'') = Inr [(''a.txt'', ''A'', ''2020'')]"
    by (simp add: main_eval failing_run_def)
  then have p: "\<forall>g\<in>set [''a.txt'']. \<exists>os. snd (file_authors ?E g) = Inr os"
    by simp
  note t = git_failure_aborts [OF f]
  have b: "file_authors ?E ''b.txt'' = ([''git'' # log_cmd ''b.txt''], Inl CalledProcessError)"
    using t by (rule conjunct1)
  have "\<forall>out pre post.
            subprocess_run ?E (''git'' # ls_files_cmd) = Inr out \<and>
            filter (\<lambda>g. g \<notin> set FILE_IGNORE) (split_ws out) = pre @ ''b.txt'' # post \<and>
            (\<forall>g\<in>set pre. \<exists>os. snd (file_authors ?E g) = Inr os) \<longrightarrow>
            main ?E =
              ((''git'' # ls_files_cmd) # map (\<lambda>g. ''git'' # log_cmd g) (pre @ [''b.txt'']),
               Inl CalledProcessError)"
    using t by (elim conjE)
  then have m: "main ?E =
     ((''git'' # ls_files_cmd) # map (\<lambda>g. ''git'' # log_cmd g) ([''a.txt''] @ [''b.txt'']),
      Inl CalledProcessError)"
    using l s p by blast
  show ?thesis
    by (intro conjI; (rule f | rule l | rule s | rule a | rule b | rule m))
qed

text \<open>
  C9, as amended. The output of \<open>git ls-files\<close> is split at white space, so no fragment
  holds white space: whatever the listing, a path that holds a white-space character, a
  space or a tab among them, is never a fragment, and \<open>git log\<close> is never started for it.
  Each fragment is checked against the exclusion list on its own. When the path is a line
  of the listing, the line gives the fragments of the path, in place between those of the
  lines before and after it: two or more when white space stands between two characters of
  the path that are not white space, and one, or none when nothing else is left, when the
  white space only leads or trails. Git prints a path with spaces as it is, and a path with
  a tab between quotes, the tab written as a backslash and the letter \<open>t\<close>: the number of
  fragments is that of the line.
\<close>

theorem whitespace_path_never_intact:
  assumes "c \<in> set p" and "is_space c"
  shows "p \<notin> set (split_ws out) \<and>
         ''git'' # log_cmd p \<notin> set (fst (main E)) \<and>
         split_ws (ls_files_output paths) = concat (map split_ws paths) \<and>
         split_ws (ls_files_output (pre @ p # post)) =
           split_ws (ls_files_output pre) @ split_ws p @ split_ws (ls_files_output post) \<and>
         snd (tracked_files E) =
           map_sum id (\<lambda>out. filter (\<lambda>f. f \<notin> set FILE_IGNORE) (split_ws out))
             (subprocess_run E (''git'' # ls_files_cmd)) \<and>
         (\<forall>u v. p = u @ c # v \<and> (\<exists>x\<in>set u. \<not> is_space x) \<and> (\<exists>x\<in>set v. \<not> is_space x) \<longrightarrow>
            2 \<le> length (split_ws p)) \<and>
         (\<forall>l core t. p = l @ core @ t \<and> (\<forall>x\<in>set l. is_space x) \<and>
            (\<forall>x\<in>set core. \<not> is_space x) \<and> (\<forall>x\<in>set t. is_space x) \<longrightarrow>
            split_ws p = (if core = [] then [] else [core]) \<and> length (split_ws p) \<le> 1)"
proof -
  have a: "p \<notin> set (split_ws out')" for out'
    using assms split_ws_fragment [of p out' c] by blast
  have b: "''git'' # log_cmd p \<notin> set (fst (main E))"
    using main_log_call [of p E] a by blast
  have d: "snd (tracked_files E) =
           map_sum id (\<lambda>out. filter (\<lambda>f. f \<notin> set FILE_IGNORE) (split_ws out))
             (subprocess_run E (''git'' # ls_files_cmd))"
    by (simp add: tracked_files_def git_def split: sum.splits)
  have e: "2 \<le> length (split_ws p)"
    if "p = u @ c # v \<and> (\<exists>x\<in>set u. \<not> is_space x) \<and> (\<exists>x\<in>set v. \<not> is_space x)" for u v
    using that assms(2) split_ws_two [of c u v] by simp
  have g: "split_ws p = (if core = [] then [] else [core]) \<and> length (split_ws p) \<le> 1"
    if "p = l @ core @ t \<and> (\<forall>x\<in>set l. is_space x) \<and>
        (\<forall>x\<in>set core. \<not> is_space x) \<and> (\<forall>x\<in>set t. is_space x)" for l core t
  proof -
    from that have "split_ws p = (if core = [] then [] else [core])"
      using split_ws_trim [of l core t] by simp
    then show ?thesis by simp
  qed
  have k: "split_ws (ls_files_output (pre @ p # post)) =
           split_ws (ls_files_output pre) @ split_ws p @ split_ws (ls_files_output post)"
    by (rule split_ws_line)
  have e': "\<forall>u v. p = u @ c # v \<and> (\<exists>x\<in>set u. \<not> is_space x) \<and> (\<exists>x\<in>set v. \<not> is_space x) \<longrightarrow>
            2 \<le> length (split_ws p)"
    using e by blast
  have g': "\<forall>l core t. p = l @ core @ t \<and> (\<forall>x\<in>set l. is_space x) \<and>
            (\<forall>x\<in>set core. \<not> is_space x) \<and> (\<forall>x\<in>set t. is_space x) \<longrightarrow>
            split_ws p = (if core = [] then [] else [core]) \<and> length (split_ws p) \<le> 1"
    using g by blast
  show ?thesis
    apply (rule conjI, rule a)
    apply (rule conjI, rule b)
    apply (rule conjI, rule split_ws_ls_files)
    apply (rule conjI, rule k)
    apply (rule conjI, rule d)
    apply (rule conjI, rule e')
    apply (rule g')
    done
qed

theorem whitespace_path_never_intact_witness:
  "CHR '' '' \<in> set ''my file.txt'' \<and> is_space CHR '' '' \<and>
   ''my file.txt'' = ''my'' @ CHR '' '' # ''file.txt'' \<and>
   subprocess_run (utc_env spaced_run) (''git'' # ls_files_cmd) =
     Inr (ls_files_output ([''main.go''] @ ''my file.txt'' # [])) \<and>
   split_ws (ls_files_output ([''main.go''] @ ''my file.txt'' # [])) =
     [''main.go'', ''my'', ''file.txt''] \<and>
   ''my file.txt'' \<notin> set (split_ws (ls_files_output ([''main.go''] @ ''my file.txt'' # []))) \<and>
   split_ws (ls_files_output ([''main.go''] @ ''my file.txt'' # [])) =
     split_ws (ls_files_output [''main.go'']) @ split_ws ''my file.txt'' @
     split_ws (ls_files_output []) \<and>
   2 \<le> length (split_ws ''my file.txt'') \<and>
   main (utc_env spaced_run) =
     ([''git'' # ls_files_cmd, ''git'' # log_cmd ''main.go'', ''git'' # log_cmd ''my''],
      Inl CalledProcessError) \<and>
   ''git'' # log_cmd ''my file.txt'' \<notin> set (fst (main (utc_env spaced_run))) \<and>
   CHR '' '' \<in> set ''a '' \<and> ''a '' = [] @ ''a'' @ '' '' \<and>
   split_ws ''a '' = [''a''] \<and> length (split_ws ''a '') \<le> 1 \<and>
   CHR 0x09 \<in> set [CHR ''a'', CHR 0x09, CHR ''b''] \<and> is_space (CHR 0x09) \<and>
   split_ws (ls_files_output [[CHR 0x22, CHR ''a'', CHR 0x5C, CHR ''t'', CHR ''b'', CHR 0x22]]) =
     [[CHR 0x22, CHR ''a'', CHR 0x5C, CHR ''t'', CHR ''b'', CHR 0x22]] \<and>
   [CHR ''a'', CHR 0x09, CHR ''b''] \<notin>
     set (split_ws (ls_files_output [[CHR 0x22, CHR ''a'', CHR 0x5C, CHR ''t'', CHR ''b'', CHR 0x22]]))"
proof -
  let ?E = "utc_env spaced_run"
  let ?out = "ls_files_output ([''main.go''] @ ''my file.txt'' # [])"
  have m: "CHR '' '' \<in> set ''my file.txt''" by simp
  have i: "is_space CHR '' ''" by (simp add: is_space_def)
  have q: "''my file.txt'' = ''my'' @ CHR '' '' # ''file.txt''" by simp
  have l: "subprocess_run ?E (''git'' # ls_files_cmd) = Inr ?out"
    by (simp add: utc_env_def spaced_run_def)
  have s: "split_ws ?out = [''main.go'', ''my'', ''file.txt'']"
    by (simp add: ls_files_output_def split_ws_def is_space_def NL_def)
  have r: "main ?E =
     ([''git'' # ls_files_cmd, ''git'' # log_cmd ''main.go'', ''git'' # log_cmd ''my''],
      Inl CalledProcessError)"
    by (simp add: main_eval spaced_run_def)
  note t = whitespace_path_never_intact [OF m i, of ?out ?E "[]" "[''main.go'']" "[]"]
  have n: "''my file.txt'' \<notin> set (split_ws ?out)"
    using t by (rule conjunct1)
  have g: "''git'' # log_cmd ''my file.txt'' \<notin> set (fst (main ?E))"
    using t by (elim conjE)
  have k: "split_ws ?out =
     split_ws (ls_files_output [''main.go'']) @ split_ws ''my file.txt'' @
     split_ws (ls_files_output [])"
    using t by (elim conjE)
  have "\<forall>u v. ''my file.txt'' = u @ CHR '' '' # v \<and> (\<exists>x\<in>set u. \<not> is_space x) \<and>
      (\<exists>x\<in>set v. \<not> is_space x) \<longrightarrow> 2 \<le> length (split_ws ''my file.txt'')"
    using t by (elim conjE)
  moreover have "\<exists>x\<in>set ''my''. \<not> is_space x" "\<exists>x\<in>set ''file.txt''. \<not> is_space x"
    by (simp_all add: is_space_def)
  ultimately have w: "2 \<le> length (split_ws ''my file.txt'')"
    using q by blast
  have m': "CHR '' '' \<in> set ''a ''" by simp
  have q': "''a '' = [] @ ''a'' @ '' ''" by simp
  note t' = whitespace_path_never_intact [OF m' i, of "[]" ?E "[]" "[]" "[]"]
  have "\<forall>l core t. ''a '' = l @ core @ t \<and> (\<forall>x\<in>set l. is_space x) \<and>
            (\<forall>x\<in>set core. \<not> is_space x) \<and> (\<forall>x\<in>set t. is_space x) \<longrightarrow>
            split_ws ''a '' = (if core = [] then [] else [core]) \<and> length (split_ws ''a '') \<le> 1"
    using t' by (elim conjE)
  moreover have "\<forall>x\<in>set []. is_space x" "\<forall>x\<in>set ''a''. \<not> is_space x"
      "\<forall>x\<in>set '' ''. is_space x"
    by (simp_all add: is_space_def)
  ultimately have z: "split_ws ''a '' = (if ''a'' = [] then [] else [''a'']) \<and>
      length (split_ws ''a '') \<le> 1"
    using q' by blast
  have z1: "split_ws ''a '' = [''a'']" using z by simp
  have z2: "length (split_ws ''a '') \<le> 1" using z by (rule conjunct2)
  let ?line = "[CHR 0x22, CHR ''a'', CHR 0x5C, CHR ''t'', CHR ''b'', CHR 0x22]"
  have mt: "CHR 0x09 \<in> set [CHR ''a'', CHR 0x09, CHR ''b'']" by simp
  have it: "is_space (CHR 0x09)" by (simp add: is_space_def)
  have st: "split_ws (ls_files_output [?line]) = [?line]"
    by (simp add: ls_files_output_def split_ws_def is_space_def NL_def)
  have nt: "[CHR ''a'', CHR 0x09, CHR ''b''] \<notin> set (split_ws (ls_files_output [?line]))"
    using whitespace_path_never_intact [OF mt it, of "ls_files_output [?line]" ?E "[]" "[]" "[]"]
    by (rule conjunct1)
  show ?thesis
    by (intro conjI; (rule m | rule i | rule q | rule l | rule s | rule n | rule k | rule w |
          rule r | rule g | rule m' | rule q' | rule z1 | rule z2 | rule mt | rule it |
          rule st | rule nt))
qed

text \<open>
  C9 as stated gives every path that holds a space two fragments or more. A path made of
  the letter \<open>a\<close> and a space after it yields the single fragment \<open>a\<close>.
\<close>

theorem whitespace_path_fragments_counterexample:
  "CHR '' '' \<in> set ''a '' \<and>
   split_ws (ls_files_output [''a '']) = [''a''] \<and>
   \<not> 2 \<le> length (split_ws (ls_files_output [''a '']))"
  by (simp add: ls_files_output_def split_ws_def is_space_def NL_def)

end
